theory Spec2Isabelle
  imports Main "HOL-Library.Sublist" "HOL-Library.AList" "HOL-Library.Signed_Division"
begin

section \<open>Paths: the path/filepath functions the server calls\<close>

text \<open>
  The server manipulates slash-separated paths through Go's \<^verbatim>\<open>path/filepath\<close>
  (Unix flavour: the separator is \<^verbatim>\<open>/\<close>, there is no volume name, \<^verbatim>\<open>ToSlash\<close> is the
  identity). \<open>Clean\<close> follows the library's four rules: runs of separators collapse,
  \<^verbatim>\<open>.\<close> elements disappear, an inner \<^verbatim>\<open>..\<close> removes the element before it, a \<^verbatim>\<open>..\<close> that
  would climb above a rooted path is dropped; the empty result is \<^verbatim>\<open>.\<close>. The library
  scans bytes with a write index; here the same rules run over the list of elements
  between separators, \<open>cleanElems\<close> keeping the output as a stack (last element first).
  \<open>Dir\<close> cleans everything up to and including the last separator, \<open>Join\<close> skips
  leading empty arguments, joins the rest with a separator and cleans.
\<close>

fun splitSep :: "string \<Rightarrow> string list" where
  "splitSep [] = [[]]"
| "splitSep (c # cs) =
     (if c = CHR ''/'' then [] # splitSep cs
      else (case splitSep cs of [] \<Rightarrow> [[c]] | w # ws \<Rightarrow> (c # w) # ws))"

fun joinSep :: "string list \<Rightarrow> string" where
  "joinSep [] = []"
| "joinSep [e] = e"
| "joinSep (e # es) = e @ CHR ''/'' # joinSep es"

fun cleanElems :: "bool \<Rightarrow> string list \<Rightarrow> string list \<Rightarrow> string list" where
  "cleanElems rooted out [] = rev out"
| "cleanElems rooted out (e # es) =
     (if e = [] \<or> e = ''.'' then cleanElems rooted out es
      else if e = ''..'' then
        (case out of
           t # ts \<Rightarrow>
             if t \<noteq> ''..'' then cleanElems rooted ts es
             else cleanElems rooted (''..'' # out) es
         | [] \<Rightarrow>
             if rooted then cleanElems rooted [] es
             else cleanElems rooted [''..''] es)
      else cleanElems rooted (e # out) es)"

definition isRooted :: "string \<Rightarrow> bool" where
  "isRooted path = (case path of [] \<Rightarrow> False | c # _ \<Rightarrow> c = CHR ''/'')"

definition pathElems :: "string \<Rightarrow> string list" where
  "pathElems path = cleanElems (isRooted path) [] (splitSep path)"

definition Clean :: "string \<Rightarrow> string" where
  "Clean path =
     (let elems = pathElems path in
      if isRooted path then CHR ''/'' # joinSep elems
      else if elems = [] then ''.''
      else joinSep elems)"

definition dirPrefix :: "string \<Rightarrow> string" where
  "dirPrefix path = rev (dropWhile (\<lambda>c. c \<noteq> CHR ''/'') (rev path))"

definition Dir :: "string \<Rightarrow> string" where
  "Dir path = Clean (dirPrefix path)"

definition Join :: "string \<Rightarrow> string \<Rightarrow> string" where
  "Join a b =
     (if a \<noteq> [] then Clean (a @ CHR ''/'' # b)
      else if b \<noteq> [] then Clean b
      else [])"


text \<open>
  The normal form of a cleaned element list: a run of \<^verbatim>\<open>..\<close> (none when rooted)
  followed by plain elements only.
\<close>

definition plainElem :: "string \<Rightarrow> bool" where
  "plainElem e = (e \<noteq> [] \<and> e \<noteq> ''.'' \<and> e \<noteq> ''..'' \<and> CHR ''/'' \<notin> set e)"

definition normalElems :: "bool \<Rightarrow> string list \<Rightarrow> bool" where
  "normalElems rooted es =
     (\<exists>k rest. es = replicate k ''..'' @ rest \<and> (rooted \<longrightarrow> k = 0) \<and> (\<forall>e\<in>set rest. plainElem e))"

subsection \<open>Cleaned paths are in normal form, and \<open>Dir\<close> shortens them\<close>

lemma splitSep_not_Nil: "splitSep s \<noteq> []"
  by (induction s) (auto split: list.splits)

lemma splitSep_noslash: "CHR ''/'' \<notin> set s \<Longrightarrow> splitSep s = [s]"
  by (induction s) auto

lemma splitSep_append:
  "CHR ''/'' \<notin> set a \<Longrightarrow> splitSep (a @ CHR ''/'' # b) = a # splitSep b"
  by (induction a) auto

lemma splitSep_joinSep:
  "es \<noteq> [] \<Longrightarrow> \<forall>e\<in>set es. CHR ''/'' \<notin> set e \<Longrightarrow> splitSep (joinSep es) = es"
proof (induction es rule: joinSep.induct)
  case 1
  then show ?case by simp
next
  case (2 e)
  then show ?case by (simp add: splitSep_noslash)
next
  case (3 e v va)
  then show ?case by (simp add: splitSep_append)
qed

lemma splitSep_slashfree: "e \<in> set (splitSep s) \<Longrightarrow> CHR ''/'' \<notin> set e"
proof (induction s arbitrary: e)
  case Nil
  then show ?case by simp
next
  case (Cons c cs)
  then show ?case
    by (cases "splitSep cs") (auto simp: splitSep_not_Nil split: if_splits)
qed

lemma joinSep_snoc:
  "joinSep (ys @ [x]) = (if ys = [] then x else joinSep ys @ CHR ''/'' # x)"
  by (induction ys rule: joinSep.induct) auto

lemma dirPrefix_append_noslash:
  "CHR ''/'' \<notin> set x \<Longrightarrow> dirPrefix (pre @ x) = dirPrefix pre"
  by (simp add: dirPrefix_def dropWhile_append)

lemma dirPrefix_slash: "dirPrefix (pre @ ''/'') = pre @ ''/''"
  by (simp add: dirPrefix_def)

lemma dirPrefix_Nil: "dirPrefix [] = []"
  by (simp add: dirPrefix_def)

lemma cleanElems_plain:
  "\<forall>e\<in>set es. plainElem e \<Longrightarrow> cleanElems r acc (es @ zs) = cleanElems r (rev es @ acc) zs"
  by (induction es arbitrary: acc) (auto simp: plainElem_def)

lemma cleanElems_dots:
  "set acc \<subseteq> {''..''} \<Longrightarrow>
   cleanElems False acc (replicate k ''..'' @ zs) = cleanElems False (replicate k ''..'' @ acc) zs"
proof (induction k arbitrary: acc)
  case 0
  then show ?case by simp
next
  case (Suc k)
  have "cleanElems False acc (''..'' # replicate k ''..'' @ zs)
        = cleanElems False (''..'' # acc) (replicate k ''..'' @ zs)"
    using Suc.prems by (cases acc) auto
  also have "\<dots> = cleanElems False (replicate k ''..'' @ ''..'' # acc) zs"
    using Suc.prems by (intro Suc.IH) auto
  finally show ?case by (simp add: replicate_app_Cons_same)
qed

lemma cleanElems_normal_app:
  assumes "normalElems r es"
  shows "cleanElems r [] (es @ zs) = cleanElems r (rev es) zs"
proof -
  from assms obtain k rest where es: "es = replicate k ''..'' @ rest"
    and r: "r \<longrightarrow> k = 0" and pl: "\<forall>e\<in>set rest. plainElem e"
    unfolding normalElems_def by blast
  show ?thesis
  proof (cases r)
    case True
    with r es have "es = rest" by simp
    with pl show ?thesis by (simp add: cleanElems_plain)
  next
    case False
    have "cleanElems False [] (replicate k ''..'' @ rest @ zs)
          = cleanElems False (replicate k ''..'') (rest @ zs)"
      using cleanElems_dots [of "[]" k "rest @ zs"] by simp
    also have "\<dots> = cleanElems False (rev rest @ replicate k ''..'') zs"
      using pl by (simp add: cleanElems_plain)
    finally show ?thesis using False es by simp
  qed
qed

lemma cleanElems_normal_id: "normalElems r es \<Longrightarrow> cleanElems r [] es = es"
  using cleanElems_normal_app [of r es "[]"] by simp

lemma normalElems_butlast: "normalElems r es \<Longrightarrow> normalElems r (butlast es)"
proof -
  assume "normalElems r es"
  then obtain k rest where es: "es = replicate k ''..'' @ rest"
    and r: "r \<longrightarrow> k = 0" and pl: "\<forall>e\<in>set rest. plainElem e"
    unfolding normalElems_def by blast
  show ?thesis
  proof (cases "rest = []")
    case True
    then have "butlast es = replicate (k - 1) ''..'' @ []"
      using es by (simp add: butlast_conv_take)
    then show ?thesis using r unfolding normalElems_def
      by (intro exI [of _ "k - 1"] exI [of _ "[]"]) auto
  next
    case False
    then have "butlast es = replicate k ''..'' @ butlast rest"
      using es by (simp add: butlast_append)
    moreover have "\<forall>e\<in>set (butlast rest). plainElem e"
      using pl by (meson in_set_butlastD)
    ultimately show ?thesis using r unfolding normalElems_def
      by (intro exI [of _ k] exI [of _ "butlast rest"]) auto
  qed
qed

lemma normalElems_snoc_plain:
  "normalElems r es \<Longrightarrow> plainElem e \<Longrightarrow> normalElems r (es @ [e])"
proof -
  assume "normalElems r es" and e: "plainElem e"
  then obtain k rest where es: "es = replicate k ''..'' @ rest"
    and r: "r \<longrightarrow> k = 0" and pl: "\<forall>e\<in>set rest. plainElem e"
    unfolding normalElems_def by blast
  show ?thesis unfolding normalElems_def
    using es r pl e by (intro exI [of _ k] exI [of _ "rest @ [e]"]) auto
qed

lemma normalElems_last_dots:
  assumes "normalElems r (es @ [''..''])"
  shows "\<not> r \<and> (\<exists>k. es = replicate k ''..'')"
proof -
  from assms obtain k rest where es: "es @ [''..''] = replicate k ''..'' @ rest"
    and r: "r \<longrightarrow> k = 0" and pl: "\<forall>e\<in>set rest. plainElem e"
    unfolding normalElems_def by blast
  have "rest = []"
  proof (rule ccontr)
    assume "rest \<noteq> []"
    then have "last (es @ [''..'']) = last rest" using es by simp
    then have "last rest = ''..''" by simp
    moreover have "last rest \<in> set rest" using \<open>rest \<noteq> []\<close> by simp
    ultimately show False using pl by (auto simp: plainElem_def)
  qed
  with es have e: "es @ [''..''] = replicate k ''..''" by simp
  then have "k \<noteq> 0" by (cases k) auto
  moreover from e have "butlast (es @ [''..'']) = butlast (replicate k ''..'')" by simp
  then have "es = replicate (k - 1) ''..''"
    by (simp add: butlast_conv_take)
  ultimately show ?thesis using r by blast
qed

lemma normalElems_dots: "normalElems False (replicate k ''..'')"
  unfolding normalElems_def by (rule exI [of _ k], rule exI [of _ "[]"]) simp

lemma cleanElems_normal:
  "normalElems r (rev acc) \<Longrightarrow> \<forall>e\<in>set es. CHR ''/'' \<notin> set e \<Longrightarrow>
   normalElems r (cleanElems r acc es)"
proof (induction es arbitrary: acc)
  case Nil
  then show ?case by simp
next
  case (Cons e es)
  have sf: "\<forall>e\<in>set es. CHR ''/'' \<notin> set e" using Cons.prems by simp
  consider (skip) "e = [] \<or> e = ''.''" | (dd) "e = ''..''" | (plain) "plainElem e"
    using Cons.prems by (auto simp: plainElem_def)
  then show ?case
  proof cases
    case skip
    then show ?thesis using Cons.IH [OF Cons.prems(1) sf] by auto
  next
    case plain
    then have "normalElems r (rev (e # acc))"
      using Cons.prems(1) by (simp add: normalElems_snoc_plain)
    from Cons.IH [OF this sf] plain show ?thesis by (auto simp: plainElem_def)
  next
    case dd
    show ?thesis
    proof (cases acc)
      case Nil
      show ?thesis
      proof (cases r)
        case True
        then show ?thesis using dd Nil Cons.IH [OF Cons.prems(1) sf] by simp
      next
        case False
        have "normalElems r (rev [''..''])"
          using normalElems_dots [of 1] False by simp
        from Cons.IH [OF this sf] show ?thesis using dd Nil False by simp
      qed
    next
      case (Cons t ts)
      show ?thesis
      proof (cases "t = ''..''")
        case True
        then have n: "normalElems r (rev ts @ [''..''])" using Cons.prems(1) Cons by simp
        from normalElems_last_dots [OF n] obtain k where nr: "\<not> r" and ts: "rev ts = replicate k ''..''"
          by blast
        have "rev (''..'' # acc) = replicate (Suc (Suc k)) ''..''"
          using ts True Cons by (simp add: replicate_append_same)
        then have "normalElems r (rev (''..'' # acc))"
          using normalElems_dots [of "Suc (Suc k)"] nr by simp
        from Cons.IH [OF this sf] show ?thesis using dd Cons True by simp
      next
        case False
        have "normalElems r (butlast (rev acc))" using Cons.prems(1) by (rule normalElems_butlast)
        then have "normalElems r (rev ts)" using Cons by simp
        from Cons.IH [OF this sf] show ?thesis using dd Cons False by simp
      qed
    qed
  qed
qed

lemma pathElems_normal: "normalElems (isRooted p) (pathElems p)"
  unfolding pathElems_def
  by (rule cleanElems_normal) (auto simp: normalElems_def dest: splitSep_slashfree)

lemma isRooted_Clean: "isRooted (Clean p) = isRooted p"
proof (cases "isRooted p")
  case True
  then show ?thesis by (simp add: Clean_def isRooted_def)
next
  case False
  let ?es = "pathElems p"
  have n: "normalElems False ?es" using pathElems_normal [of p] False by simp
  show ?thesis
  proof (cases "?es = []")
    case True
    then show ?thesis using False by (simp add: Clean_def isRooted_def)
  next
    case ne: False
    then obtain e es where es: "?es = e # es" by (cases ?es) auto
    from n obtain k rest where kr: "?es = replicate k ''..'' @ rest"
      and pl: "\<forall>e\<in>set rest. plainElem e"
      unfolding normalElems_def by blast
    have "e = ''..'' \<or> plainElem e"
      using es kr pl by (cases k) (auto simp: Cons_eq_append_conv)
    then have "\<not> isRooted (e @ s)" for s
      by (cases e) (auto simp: isRooted_def plainElem_def)
    from this [of "[]"] this [of "CHR ''/'' # joinSep es"]
    have "\<not> isRooted (joinSep (e # es))" by (cases es) auto
    then show ?thesis using False ne es by (simp add: Clean_def)
  qed
qed


lemma normalElems_slashfree:
  assumes "normalElems r es" and "e \<in> set es"
  shows "CHR ''/'' \<notin> set e"
proof -
  from assms(1) obtain k rest where es: "es = replicate k ''..'' @ rest"
    and pl: "\<forall>e\<in>set rest. plainElem e"
    unfolding normalElems_def by blast
  from assms(2) es have "e = ''..'' \<or> e \<in> set rest" by auto
  then show ?thesis
  proof
    assume "e = ''..''"
    then show ?thesis by simp
  next
    assume "e \<in> set rest"
    then have "plainElem e" using pl by blast
    then show ?thesis by (simp add: plainElem_def)
  qed
qed

lemma normalElems_nonempty:
  assumes "normalElems r es" and "e \<in> set es"
  shows "e \<noteq> []"
proof -
  from assms(1) obtain k rest where es: "es = replicate k ''..'' @ rest"
    and pl: "\<forall>e\<in>set rest. plainElem e"
    unfolding normalElems_def by blast
  from assms(2) es have "e = ''..'' \<or> e \<in> set rest" by auto
  then show ?thesis
  proof
    assume "e = ''..''"
    then show ?thesis by simp
  next
    assume "e \<in> set rest"
    then have "plainElem e" using pl by blast
    then show ?thesis by (simp add: plainElem_def)
  qed
qed

lemma joinSep_Cons_Nil: "es \<noteq> [] \<Longrightarrow> joinSep ([] # es) = CHR ''/'' # joinSep es"
  by (cases es) auto

lemma pathElems_render:
  assumes "normalElems r es"
  shows "cleanElems r [] (splitSep (if r then CHR ''/'' # joinSep es
                                     else if es = [] then ''.'' else joinSep es)) = es"
proof (cases "es = []")
  case True
  then show ?thesis by simp
next
  case False
  have sf: "\<forall>e\<in>set es. CHR ''/'' \<notin> set e"
    using assms normalElems_slashfree by blast
  have s: "splitSep (joinSep es) = es" using False sf by (rule splitSep_joinSep)
  show ?thesis
  proof (cases r)
    case True
    have "splitSep (CHR ''/'' # joinSep es) = [] # es" using s by simp
    then show ?thesis using True cleanElems_normal_id [OF assms] by simp
  next
    case nr: False
    then show ?thesis using False s cleanElems_normal_id [OF assms] by simp
  qed
qed

lemma pathElems_Clean: "pathElems (Clean p) = pathElems p"
  using pathElems_render [OF pathElems_normal [of p]]
  by (simp add: pathElems_def [of "Clean p"] isRooted_Clean) (simp add: Clean_def Let_def)

lemma pathElems_dirPrefix_Clean:
  assumes "pathElems p \<noteq> []"
  shows "pathElems (dirPrefix (Clean p)) = butlast (pathElems p)"
proof -
  let ?r = "isRooted p"
  let ?es = "pathElems p"
  have n: "normalElems ?r ?es" by (rule pathElems_normal)
  obtain ys x where es: "?es = ys @ [x]" using assms by (metis rev_exhaust)
  have nys: "normalElems ?r ys" using normalElems_butlast [OF n] es by simp
  have xsf: "CHR ''/'' \<notin> set x" using normalElems_slashfree [OF n, of x] es by simp
  have ysf: "\<forall>e\<in>set ys. CHR ''/'' \<notin> set e" using normalElems_slashfree [OF nys] by blast
  have dj: "dirPrefix (joinSep (ys @ [x])) = joinSep (ys @ [[]])"
  proof (cases "ys = []")
    case True
    then show ?thesis using dirPrefix_append_noslash [OF xsf, of "[]"] by (simp add: dirPrefix_Nil)
  next
    case False
    have "dirPrefix ((joinSep ys @ ''/'') @ x) = dirPrefix (joinSep ys @ ''/'')"
      using xsf by (rule dirPrefix_append_noslash)
    then show ?thesis using False by (simp add: joinSep_snoc dirPrefix_slash)
  qed
  have sp: "splitSep (joinSep (ys @ [[]])) = ys @ [[]]"
    using ysf by (intro splitSep_joinSep) auto
  have cl: "cleanElems ?r [] (ys @ [[]]) = ys"
    using cleanElems_normal_app [OF nys, of "[[]]"] by simp
  show ?thesis
  proof (cases ?r)
    case True
    have c: "Clean p = CHR ''/'' # joinSep (ys @ [x])" using True es by (simp add: Clean_def)
    have "dirPrefix (''/'' @ joinSep (ys @ [x])) = ''/'' @ joinSep (ys @ [[]])"
    proof (cases "ys = []")
      case True
      then show ?thesis using dirPrefix_append_noslash [OF xsf, of "''/''"] dirPrefix_slash [of "[]"]
        by simp
    next
      case False
      have "dirPrefix ((''/'' @ joinSep ys @ ''/'') @ x) = dirPrefix ((''/'' @ joinSep ys) @ ''/'')"
        using dirPrefix_append_noslash [OF xsf, of "''/'' @ joinSep ys @ ''/''"] by simp
      then show ?thesis using False dirPrefix_slash [of "''/'' @ joinSep ys"] by (simp add: joinSep_snoc)
    qed
    then have d: "dirPrefix (Clean p) = CHR ''/'' # joinSep (ys @ [[]])" using c by simp
    have "pathElems (dirPrefix (Clean p)) = cleanElems True [] (splitSep (CHR ''/'' # joinSep (ys @ [[]])))"
      unfolding d by (simp add: pathElems_def isRooted_def)
    also have "\<dots> = cleanElems True [] ([] # (ys @ [[]]))" using sp by simp
    also have "\<dots> = ys" using cl True by simp
    finally show ?thesis using es by simp
  next
    case False
    have c: "Clean p = joinSep (ys @ [x])" using False es by (simp add: Clean_def)
    then have d: "dirPrefix (Clean p) = joinSep (ys @ [[]])" using dj by simp
    have "\<not> isRooted (joinSep (ys @ [[]]))"
    proof (cases ys)
      case Nil
      then show ?thesis by (simp add: isRooted_def)
    next
      case (Cons y ys')
      have "CHR ''/'' \<notin> set y" using ysf Cons by simp
      moreover have "y \<noteq> []" using normalElems_nonempty [OF nys, of y] Cons by simp
      moreover have "joinSep (ys @ [[]]) = y @ CHR ''/'' # joinSep (ys' @ [[]])"
        using Cons by (cases "ys' @ [[]]") simp_all
      ultimately show ?thesis by (cases y) (auto simp: isRooted_def)
    qed
    then have "pathElems (dirPrefix (Clean p)) = cleanElems False [] (splitSep (joinSep (ys @ [[]])))"
      unfolding d by (simp add: pathElems_def)
    also have "\<dots> = ys" using cl False sp by simp
    finally show ?thesis using es by simp
  qed
qed

lemma Clean_root_iff: "pathElems p = [] \<longleftrightarrow> Clean p = ''/'' \<or> Clean p = ''.''"
proof
  assume "pathElems p = []"
  then show "Clean p = ''/'' \<or> Clean p = ''.''" by (simp add: Clean_def)
next
  assume a: "Clean p = ''/'' \<or> Clean p = ''.''"
  have "pathElems (Clean p) = []"
    using a by (auto simp: pathElems_def isRooted_def)
  then show "pathElems p = []" by (simp add: pathElems_Clean)
qed

lemma pathElems_Dir_less:
  assumes "Clean p \<noteq> ''/''" and "Clean p \<noteq> ''.''"
  shows "length (pathElems (Dir (Clean p))) < length (pathElems p)"
proof -
  have ne: "pathElems p \<noteq> []" using assms Clean_root_iff by blast
  have "pathElems (Dir (Clean p)) = butlast (pathElems p)"
    unfolding Dir_def by (simp add: pathElems_Clean pathElems_dirPrefix_Clean [OF ne])
  then show ?thesis using ne by simp
qed


section \<open>Access policies\<close>

text \<open>
  \<open>AccessConf\<close> is the policy a request is judged by; \<open>HTTPStaticServer\<close> keeps the
  fields the operations below read. Fields that several structs share in the source
  (\<^verbatim>\<open>Upload\<close>, \<^verbatim>\<open>Delete\<close>) carry a prefix outside \<open>AccessConf\<close>.
\<close>

record AccessTable =
  Regex :: string
  Allow :: bool

record UserControl =
  Email :: string
  userUpload :: bool
  userDelete :: bool

record AccessConf =
  Upload :: bool
  Delete :: bool
  Users :: "UserControl list"
  AccessTables :: "AccessTable list"

record FileInfo =
  fiName :: string
  fiSize :: int
  fiIsDir :: bool
  fiModTime :: int

record IndexFileItem =
  Path :: string
  Info :: FileInfo

record HTTPStaticServer =
  Root :: string
  srvUpload :: bool
  srvDelete :: bool
  indexes :: "IndexFileItem list"

subsection \<open>Sidecar files and their decoding\<close>

text \<open>
  A sidecar \<^verbatim>\<open>.ghs.yml\<close> is decoded by \<^verbatim>\<open>yaml.Unmarshal(data, &ac)\<close>, in place, into the
  policy resolved so far. The decoder belongs to the go-yaml library, not to this
  program; it is modelled by its documented behaviour. The bytes of a file are
  represented by what the decoder makes of them:
  \<^item> \<open>SyntaxError\<close>: the document is rejected by the parser before anything is decoded;
    the target is left as it was and an error is returned;
  \<^item> \<open>Document d bad\<close>: the document parses; every recognised key that decodes (the
    \<open>Some\<close> fields of \<open>d\<close>) is stored into the target, a key that is absent leaves the
    target's field alone, and \<open>bad\<close> tells that some value had the wrong type, in which
    case the library still decodes the rest and then returns a type error.
  A sequence that is present replaces the target's slice (it is not appended to).
  Empty input decodes as a document with no key.
\<close>

record SidecarDoc =
  docUpload :: "bool option"
  docDelete :: "bool option"
  docUsers :: "UserControl list option"
  docAccessTables :: "AccessTable list option"

datatype YamlData = SyntaxError | Document SidecarDoc bool

definition emptyDoc :: SidecarDoc where
  "emptyDoc = \<lparr>docUpload = None, docDelete = None, docUsers = None, docAccessTables = None\<rparr>"

definition overlay :: "SidecarDoc \<Rightarrow> AccessConf \<Rightarrow> AccessConf" where
  "overlay d ac =
     \<lparr>Upload = (case docUpload d of Some b \<Rightarrow> b | None \<Rightarrow> Upload ac),
      Delete = (case docDelete d of Some b \<Rightarrow> b | None \<Rightarrow> Delete ac),
      Users = (case docUsers d of Some us \<Rightarrow> us | None \<Rightarrow> Users ac),
      AccessTables = (case docAccessTables d of Some ts \<Rightarrow> ts | None \<Rightarrow> AccessTables ac)\<rparr>"

fun Unmarshal :: "YamlData \<Rightarrow> AccessConf \<Rightarrow> AccessConf \<times> bool" where
  "Unmarshal SyntaxError ac = (ac, True)"
| "Unmarshal (Document d bad) ac = (overlay d ac, bad)"

subsection \<open>The operating system, as far as the server asks it\<close>

text \<open>
  \<open>ReadFile\<close> is \<^verbatim>\<open>ioutil.ReadFile\<close> with its three outcomes in the source: the file does
  not exist, another read error, or the data. \<open>isFile\<close> is the source's helper
  (\<^verbatim>\<open>os.Stat\<close> succeeds and the mode is regular). \<open>ReadDir\<close> is \<^verbatim>\<open>ioutil.ReadDir\<close>
  (\<open>Inl\<close> the error's message). \<open>Remove\<close> is \<^verbatim>\<open>os.Remove\<close>, returning the error message if it
  fails. \<open>Rel\<close> is \<^verbatim>\<open>filepath.Rel\<close> (\<open>None\<close> on error), whose result only names search
  results.
\<close>

datatype ReadResult = NotExist | ReadErr | Data YamlData

record OS =
  isFile :: "string \<Rightarrow> bool"
  ReadFile :: "string \<Rightarrow> ReadResult"
  ReadDir :: "string \<Rightarrow> string + FileInfo list"
  Remove :: "string \<Rightarrow> string option"
  Rel :: "string \<Rightarrow> string \<Rightarrow> string option"

datatype LogLine = ErrRead string | ErrFormat string

subsection \<open>Resolving the policy of a request path\<close>

definition defaultAccessConf :: "HTTPStaticServer \<Rightarrow> AccessConf" where
  "defaultAccessConf s = \<lparr>Upload = srvUpload s, Delete = False, Users = [], AccessTables = []\<rparr>"

text \<open>
  \<open>cfgFileOf\<close> is the sidecar that \<^verbatim>\<open>readAccessConf\<close> opens for a cleaned request path
  (lines 568 to 572 of the source): the directory itself, or the containing directory
  when the path names a regular file.
\<close>

definition cfgFileOf :: "HTTPStaticServer \<Rightarrow> OS \<Rightarrow> string \<Rightarrow> string" where
  "cfgFileOf s os requestPath =
     (let relPath = Join (Root s) requestPath;
          relPath' = (if isFile os relPath then Dir relPath else relPath)
      in Join relPath' ''.ghs.yml'')"

text \<open>
  \<open>applySidecar\<close> is the second half of \<^verbatim>\<open>readAccessConf\<close> (lines 573 to 584): read the
  sidecar; if it does not exist return the policy as it is; on another read error log
  and decode the empty data; decode in place and log a decoding error; return whatever
  the decoder left in the policy.
\<close>

definition applySidecar ::
  "OS \<Rightarrow> string \<Rightarrow> AccessConf \<times> LogLine list \<Rightarrow> AccessConf \<times> LogLine list" where
  "applySidecar os cfgFile st =
     (case st of (ac, lg) \<Rightarrow>
        (case ReadFile os cfgFile of
           NotExist \<Rightarrow> (ac, lg)
         | ReadErr \<Rightarrow>
             (case Unmarshal (Document emptyDoc False) ac of
                (ac', err) \<Rightarrow> (ac', lg @ [ErrRead cfgFile] @ (if err then [ErrFormat cfgFile] else [])))
         | Data d \<Rightarrow>
             (case Unmarshal d ac of
                (ac', err) \<Rightarrow> (ac', lg @ (if err then [ErrFormat cfgFile] else [])))))"

definition isRootPath :: "string \<Rightarrow> bool" where
  "isRootPath requestPath = (requestPath = ''/'' \<or> requestPath = [] \<or> requestPath = ''.'')"

function readAccessConf :: "HTTPStaticServer \<Rightarrow> OS \<Rightarrow> string \<Rightarrow> AccessConf \<times> LogLine list" where
  "readAccessConf s os requestPath =
     applySidecar os (cfgFileOf s os (Clean requestPath))
       (if isRootPath (Clean requestPath) then (defaultAccessConf s, [])
        else readAccessConf s os (Dir (Clean requestPath)))"
  by pat_completeness auto
termination
  by (relation "measure (\<lambda>(s, os, p). length (pathElems p))")
     (auto simp: isRootPath_def pathElems_Dir_less)

declare readAccessConf.simps [simp del]

text \<open>
  \<open>parentState\<close> names what the first half of \<^verbatim>\<open>readAccessConf\<close> computes (lines 561 to
  567): the default policy at the root, the parent directory's resolved policy
  elsewhere. \<open>cfgFiles\<close> lists the sidecar files a resolution opens, root first.
\<close>

definition parentState :: "HTTPStaticServer \<Rightarrow> OS \<Rightarrow> string \<Rightarrow> AccessConf \<times> LogLine list" where
  "parentState s os requestPath =
     (if isRootPath (Clean requestPath) then (defaultAccessConf s, [])
      else readAccessConf s os (Dir (Clean requestPath)))"

function cfgFiles :: "HTTPStaticServer \<Rightarrow> OS \<Rightarrow> string \<Rightarrow> string list" where
  "cfgFiles s os requestPath =
     (if isRootPath (Clean requestPath) then []
      else cfgFiles s os (Dir (Clean requestPath))) @ [cfgFileOf s os (Clean requestPath)]"
  by pat_completeness auto
termination
  by (relation "measure (\<lambda>(s, os, p). length (pathElems p))")
     (auto simp: isRootPath_def pathElems_Dir_less)

declare cfgFiles.simps [simp del]

subsection \<open>Judging a caller\<close>

text \<open>
  The session store is outside the program; a request carries one of its three
  outcomes: the lookup fails, the session has no user, or it names a user's email.
\<close>

datatype Session = SessionErr | NoUser | User string

definition canDelete :: "AccessConf \<Rightarrow> Session \<Rightarrow> bool" where
  "canDelete c r =
     (case r of
        SessionErr \<Rightarrow> Delete c
      | NoUser \<Rightarrow> Delete c
      | User email \<Rightarrow>
          (case find (\<lambda>rule. Email rule = email) (Users c) of
             Some rule \<Rightarrow> userDelete rule
           | None \<Rightarrow> Delete c))"

definition canUpload :: "AccessConf \<Rightarrow> Session \<Rightarrow> bool" where
  "canUpload c r =
     (case r of
        SessionErr \<Rightarrow> Upload c
      | NoUser \<Rightarrow> Upload c
      | User email \<Rightarrow>
          (case find (\<lambda>rule. Email rule = email) (Users c) of
             Some rule \<Rightarrow> userUpload rule
           | None \<Rightarrow> Upload c))"

subsection \<open>The DELETE handler\<close>

text \<open>
  A handler's outcome is the HTTP status with the body written, and the list of paths
  it asked the operating system to remove. \<open>httpError\<close> is \<^verbatim>\<open>http.Error\<close>, which writes
  the message followed by a line feed.
\<close>

datatype Response = Response nat string

definition httpError :: "nat \<Rightarrow> string \<Rightarrow> Response" where
  "httpError code msg = Response code (msg @ [CHR 0x0A])"

definition hDelete :: "HTTPStaticServer \<Rightarrow> OS \<Rightarrow> Session \<Rightarrow> string \<Rightarrow> Response \<times> string list" where
  "hDelete s os req path =
     (let auth = fst (readAccessConf s os path) in
      if \<not> canDelete auth req then (httpError 403 ''Delete forbidden'', [])
      else
        (case Remove os (Join (Root s) path) of
           Some err \<Rightarrow> (httpError 500 err, [Join (Root s) path])
         | None \<Rightarrow> (Response 200 ''Success'', [Join (Root s) path])))"

section \<open>File-name rules\<close>

text \<open>
  \<^verbatim>\<open>canAccess\<close> compiles the rules' patterns with Go's \<^verbatim>\<open>regexp\<close> package and keeps the
  results, failures included, in the process-wide map \<^verbatim>\<open>reCache\<close>. The package is a
  parameter: \<open>Compile\<close> gives \<open>None\<close> for a pattern it rejects (the source then holds a
  nil pointer), \<open>MatchString\<close> is the unanchored match. The state that \<^verbatim>\<open>canAccess\<close>
  reads and writes is the cache; next to it the model records, in order, every pattern
  handed to \<open>Compile\<close>, so that repeated compilation can be spoken of.
\<close>

record 're RegexpEngine =
  Compile :: "string \<Rightarrow> 're option"
  MatchString :: "'re \<Rightarrow> string \<Rightarrow> bool"

record 're ReState =
  reCache :: "string \<rightharpoonup> 're option"
  compiled :: "string list"

definition initialReState :: "'re ReState" where
  "initialReState = \<lparr>reCache = Map.empty, compiled = []\<rparr>"

definition cachedPattern :: "'re RegexpEngine \<Rightarrow> string \<Rightarrow> 're ReState \<Rightarrow> 're option \<times> 're ReState" where
  "cachedPattern E rx st =
     (case reCache st rx of
        Some pattern \<Rightarrow> (pattern, st)
      | None \<Rightarrow>
          (let pattern = Compile E rx
           in (pattern, \<lparr>reCache = (reCache st)(rx \<mapsto> pattern), compiled = compiled st @ [rx]\<rparr>)))"

fun canAccessLoop ::
  "'re RegexpEngine \<Rightarrow> AccessTable list \<Rightarrow> string \<Rightarrow> 're ReState \<Rightarrow> bool \<times> 're ReState" where
  "canAccessLoop E [] fileName st = (True, st)"
| "canAccessLoop E (table # tables) fileName st =
     (case cachedPattern E (Regex table) st of
        (None, st') \<Rightarrow> canAccessLoop E tables fileName st'
      | (Some pattern, st') \<Rightarrow>
          if MatchString E pattern fileName then (Allow table, st')
          else canAccessLoop E tables fileName st')"

definition canAccess ::
  "'re RegexpEngine \<Rightarrow> AccessConf \<Rightarrow> string \<Rightarrow> 're ReState \<Rightarrow> bool \<times> 're ReState" where
  "canAccess E c fileName st = canAccessLoop E (AccessTables c) fileName st"

text \<open>
  \<open>ruleMatches\<close> says when a rule's pattern matches a file name: the pattern compiles
  and the compiled pattern matches. \<open>reachableRe\<close> are the states of the cache that the
  program can be in: it starts empty and only \<^verbatim>\<open>canAccess\<close> touches it. \<open>cacheInv\<close> is
  what holds of all of them: the cache holds what \<open>Compile\<close> gives, and the patterns
  compiled so far are the cached ones, each compiled once.
\<close>

definition ruleMatches :: "'re RegexpEngine \<Rightarrow> string \<Rightarrow> AccessTable \<Rightarrow> bool" where
  "ruleMatches E fileName table =
     (case Compile E (Regex table) of
        None \<Rightarrow> False
      | Some pattern \<Rightarrow> MatchString E pattern fileName)"

inductive reachableRe :: "'re RegexpEngine \<Rightarrow> 're ReState \<Rightarrow> bool" for E where
  init: "reachableRe E initialReState"
| step: "reachableRe E st \<Longrightarrow> reachableRe E (snd (canAccess E c fileName st))"

definition cacheInv :: "'re RegexpEngine \<Rightarrow> 're ReState \<Rightarrow> bool" where
  "cacheInv E st =
     ((\<forall>rx p. reCache st rx = Some p \<longrightarrow> p = Compile E rx) \<and>
      distinct (compiled st) \<and> set (compiled st) = dom (reCache st))"

section \<open>The search index\<close>

subsection \<open>String functions\<close>

text \<open>
  A Go string is a sequence of bytes. \<^verbatim>\<open>strings.Contains\<close>, \<^verbatim>\<open>strings.HasPrefix\<close> and
  slicing compare and cut bytes, and so do their models here; \<^verbatim>\<open>filepath.HasPrefix\<close> is
  the same byte comparison as \<^verbatim>\<open>strings.HasPrefix\<close>. \<^verbatim>\<open>strings.Fields\<close> and
  \<^verbatim>\<open>strings.ToLower\<close> decode the bytes as UTF-8 and follow the Unicode tables of white
  space and of letter case. Those tables belong to Go's library, not to this program:
  the two functions are parameters of the search, \<open>Fields\<close> giving the tokens of a query
  and \<open>ToLower\<close> the lower-case form of a string.
\<close>

record StringsLib =
  Fields :: "string \<Rightarrow> string list"
  ToLower :: "string \<Rightarrow> string"

definition HasPrefix :: "string \<Rightarrow> string \<Rightarrow> bool" where
  "HasPrefix s pre = prefix pre s"

fun Contains :: "string \<Rightarrow> string \<Rightarrow> bool" where
  "Contains [] substr = (substr = [])"
| "Contains (c # cs) substr = (prefix substr (c # cs) \<or> Contains cs substr)"

subsection \<open>Searching\<close>

text \<open>
  \<open>keywordsOk\<close> is the inner loop of \<^verbatim>\<open>findIndex\<close>: \<^verbatim>\<open>ok\<close> starts true, a keyword that is
  empty after its \<^verbatim>\<open>-\<close> is stripped is passed over, and the loop is left at the first
  keyword that fails. \<open>findIndexLoop\<close> is the outer loop over the snapshot.
\<close>

fun keywordsOk :: "StringsLib \<Rightarrow> string \<Rightarrow> string list \<Rightarrow> bool" where
  "keywordsOk L path [] = True"
| "keywordsOk L path (keyword # rest) =
     (let needContains = \<not> HasPrefix keyword ''-'';
          keyword' = (if HasPrefix keyword ''-'' then drop 1 keyword else keyword)
      in if keyword' = [] then keywordsOk L path rest
         else if needContains = Contains (ToLower L path) (ToLower L keyword') then keywordsOk L path rest
         else False)"

fun findIndexLoop :: "StringsLib \<Rightarrow> IndexFileItem list \<Rightarrow> string \<Rightarrow> IndexFileItem list" where
  "findIndexLoop L [] text = []"
| "findIndexLoop L (item # items) text =
     (if keywordsOk L (Path item) (Fields L text) then item # findIndexLoop L items text
      else findIndexLoop L items text)"

definition findIndex :: "StringsLib \<Rightarrow> HTTPStaticServer \<Rightarrow> string \<Rightarrow> IndexFileItem list" where
  "findIndex L s text = findIndexLoop L (indexes s) text"


subsection \<open>Building the index\<close>

text \<open>
  The tree that \<^verbatim>\<open>filepath.Walk\<close> meets: a regular file with its size and modification
  time, a directory with its entries in the order the library lists them, a directory
  whose listing fails, and a name whose \<^verbatim>\<open>Lstat\<close> fails.
\<close>

datatype FsNode =
  RegularFile int int
  | Directory "(string \<times> FsNode) list"
  | UnreadableDir
  | NoStat

datatype WalkErr = SkipDir | Failure string

definition nodeInfo :: "string \<Rightarrow> FsNode \<Rightarrow> FileInfo" where
  "nodeInfo name node =
     (case node of
        RegularFile sz mt \<Rightarrow> \<lparr>fiName = name, fiSize = sz, fiIsDir = False, fiModTime = mt\<rparr>
      | _ \<Rightarrow> \<lparr>fiName = name, fiSize = 0, fiIsDir = True, fiModTime = 0\<rparr>)"

definition Base :: "string \<Rightarrow> string" where
  "Base path =
     (if path = [] then ''.''
      else (let p = rev (dropWhile (\<lambda>c. c = CHR ''/'') (rev path))
            in if p = [] then ''/'' else last (splitSep p)))"

text \<open>
  \<open>walk\<close> and \<open>walkEntries\<close> follow the library: a file is handed to the callback; a
  directory is listed, handed to the callback together with the listing's error, and
  left if either failed; then each entry is visited in turn. An entry whose \<^verbatim>\<open>Lstat\<close>
  fails is handed to the callback with the error, and only an answer other than
  \<open>SkipDir\<close> stops the walk; \<open>SkipDir\<close> from the walk of an entry stops the walk of the
  current directory unless the entry is a directory. (Older releases of the library
  call the callback on a directory before listing it and once more if the listing
  fails.) \<open>Walk\<close> starts at the root; \<open>legacy\<close> selects the behaviour of the releases that
  return the callback's answer for the root as it is, where later ones turn \<open>SkipDir\<close>
  into success.
\<close>

function
  walk :: "(string \<Rightarrow> FileInfo option \<Rightarrow> bool \<Rightarrow> 'st \<Rightarrow> WalkErr option \<times> 'st) \<Rightarrow>
           string \<Rightarrow> string \<Rightarrow> FsNode \<Rightarrow> 'st \<Rightarrow> WalkErr option \<times> 'st" and
  walkEntries :: "(string \<Rightarrow> FileInfo option \<Rightarrow> bool \<Rightarrow> 'st \<Rightarrow> WalkErr option \<times> 'st) \<Rightarrow>
           string \<Rightarrow> (string \<times> FsNode) list \<Rightarrow> 'st \<Rightarrow> WalkErr option \<times> 'st"
where
  "walk walkFn path name (RegularFile sz mt) st =
     walkFn path (Some (nodeInfo name (RegularFile sz mt))) False st"
| "walk walkFn path name UnreadableDir st =
     walkFn path (Some (nodeInfo name UnreadableDir)) True st"
| "walk walkFn path name NoStat st = walkFn path None True st"
| "walk walkFn path name (Directory entries) st =
     (case walkFn path (Some (nodeInfo name (Directory entries))) False st of
        (Some err1, st1) \<Rightarrow> (Some err1, st1)
      | (None, st1) \<Rightarrow> walkEntries walkFn path entries st1)"
| "walkEntries walkFn path [] st = (None, st)"
| "walkEntries walkFn path ((name, node) # rest) st =
     (case walk walkFn (Join path name) name node st of
        (None, st1) \<Rightarrow> walkEntries walkFn path rest st1
      | (Some err, st1) \<Rightarrow>
          if node = NoStat then
            (if err \<noteq> SkipDir then (Some err, st1) else walkEntries walkFn path rest st1)
          else if \<not> fiIsDir (nodeInfo name node) \<or> err \<noteq> SkipDir then (Some err, st1)
          else walkEntries walkFn path rest st1)"
  by pat_completeness auto
termination
  by (relation "measure (\<lambda>x. case x of
          Inl (walkFn, path, name, node, st) \<Rightarrow> 2 * size node
        | Inr (walkFn, path, entries, st) \<Rightarrow> 2 * size_list (size_prod (\<lambda>_. 0) size) entries + 1)")
     auto

definition Walk ::
  "bool \<Rightarrow> (string \<Rightarrow> FileInfo option \<Rightarrow> bool \<Rightarrow> 'st \<Rightarrow> WalkErr option \<times> 'st) \<Rightarrow>
   string \<Rightarrow> FsNode \<Rightarrow> 'st \<Rightarrow> WalkErr option \<times> 'st" where
  "Walk legacy walkFn root tree st =
     (case walk walkFn root (Base root) tree st of
        (err, st1) \<Rightarrow> if err = Some SkipDir \<and> \<not> legacy then (None, st1) else (err, st1))"

text \<open>
  The callback of \<^verbatim>\<open>makeIndex\<close>, with the slice it appends to and the paths it warns
  about as its state; \<^verbatim>\<open>filepath.Rel\<close> gives the empty string when it fails.
\<close>

definition indexFn ::
  "HTTPStaticServer \<Rightarrow> OS \<Rightarrow> string \<Rightarrow> FileInfo option \<Rightarrow> bool \<Rightarrow>
   IndexFileItem list \<times> string list \<Rightarrow> WalkErr option \<times> IndexFileItem list \<times> string list" where
  "indexFn s os path info err st =
     (case st of (items, warned) \<Rightarrow>
        if err then (Some SkipDir, items, warned @ [path])
        else
          (case info of
             None \<Rightarrow> (None, items, warned)
           | Some fi \<Rightarrow>
               if fiIsDir fi then (None, items, warned)
               else
                 (None,
                  items @ [\<lparr>Path = (case Rel os (Root s) path of Some p \<Rightarrow> p | None \<Rightarrow> []), Info = fi\<rparr>],
                  warned)))"

definition makeIndex ::
  "bool \<Rightarrow> HTTPStaticServer \<Rightarrow> OS \<Rightarrow> FsNode \<Rightarrow> HTTPStaticServer \<times> WalkErr option \<times> string list" where
  "makeIndex legacy s os tree =
     (case Walk legacy (indexFn s os) (Root s) tree ([], []) of
        (err, items, warned) \<Rightarrow> (s\<lparr>indexes := items\<rparr>, err, warned))"

text \<open>
  The files of a tree as a build is meant to collect them: every regular file, in the
  order of the walk, nothing below a directory that cannot be listed and nothing for a
  name that cannot be examined.
\<close>

fun treeFiles :: "string \<Rightarrow> string \<Rightarrow> FsNode \<Rightarrow> (string \<times> FileInfo) list" and
  entriesFiles :: "string \<Rightarrow> (string \<times> FsNode) list \<Rightarrow> (string \<times> FileInfo) list" where
  "treeFiles path name (RegularFile sz mt) = [(path, nodeInfo name (RegularFile sz mt))]"
| "treeFiles path name (Directory entries) = entriesFiles path entries"
| "treeFiles path name UnreadableDir = []"
| "treeFiles path name NoStat = []"
| "entriesFiles path [] = []"
| "entriesFiles path ((name, node) # rest) =
     treeFiles (Join path name) name node @ entriesFiles path rest"

text \<open>
  The paths a build warns about: the directories that cannot be listed and the names
  that cannot be examined, in the order of the walk. \<open>indexItem\<close> is the entry the
  callback makes of a file.
\<close>

fun treeWarned :: "string \<Rightarrow> FsNode \<Rightarrow> string list" and
  entriesWarned :: "string \<Rightarrow> (string \<times> FsNode) list \<Rightarrow> string list" where
  "treeWarned path (RegularFile sz mt) = []"
| "treeWarned path (Directory entries) = entriesWarned path entries"
| "treeWarned path UnreadableDir = [path]"
| "treeWarned path NoStat = [path]"
| "entriesWarned path [] = []"
| "entriesWarned path ((name, node) # rest) =
     treeWarned (Join path name) node @ entriesWarned path rest"

definition indexItem :: "HTTPStaticServer \<Rightarrow> OS \<Rightarrow> string \<times> FileInfo \<Rightarrow> IndexFileItem" where
  "indexItem s os e =
     \<lparr>Path = (case Rel os (Root s) (fst e) of Some p \<Rightarrow> p | None \<Rightarrow> []), Info = snd e\<rparr>"

definition cannotOpen :: "FsNode \<Rightarrow> bool" where
  "cannotOpen node = (node = NoStat \<or> node = UnreadableDir)"

section \<open>Directory listings\<close>

text \<open>
  \<open>deepPath\<close> folds a chain of directories with a single child. The loop variable
  \<^verbatim>\<open>isDir\<close> of the source is never assigned after its initialisation to true and is left
  out.
\<close>

definition maxDepth :: nat where
  "maxDepth = 5"

function deepPathLoop :: "OS \<Rightarrow> string \<Rightarrow> nat \<Rightarrow> string \<Rightarrow> string" where
  "deepPathLoop os basedir depth name =
     (if depth \<le> maxDepth then
        (case ReadDir os (Join basedir name) of
           Inl err \<Rightarrow> name
         | Inr finfos \<Rightarrow>
             (case finfos of
                [f] \<Rightarrow>
                  if fiIsDir f then deepPathLoop os basedir (depth + 1) (Join name (fiName f))
                  else name
              | _ \<Rightarrow> name))
      else name)"
  by pat_completeness auto
termination
  by (relation "measure (\<lambda>(os, basedir, depth, name). Suc maxDepth - depth)") auto

declare deepPathLoop.simps [simp del]

definition deepPath :: "OS \<Rightarrow> string \<Rightarrow> string \<Rightarrow> string" where
  "deepPath os basedir name = deepPathLoop os basedir 0 name"

record HTTPFileInfo =
  lrName :: string
  lrPath :: string
  lrType :: string
  lrSize :: int
  lrModTime :: int

text \<open>
  \<^verbatim>\<open>hJSONList\<close> first fills the map \<^verbatim>\<open>fileInfoMap\<close> from path to file information, from the
  search results or from the directory, and then turns every entry that \<^verbatim>\<open>canAccess\<close>
  admits into a record. The map is an association list in order of first insertion;
  Go iterates a map in no particular order, so only the entries of the result, not
  their order, mean anything. Log output of the handler is left out.
\<close>

definition searchEntries ::
  "StringsLib \<Rightarrow> HTTPStaticServer \<Rightarrow> string \<Rightarrow> string \<Rightarrow> (string \<times> FileInfo) list" where
  "searchEntries L s requestPath search =
     (let results = findIndex L s search;
          results' = (if length results > 50 then take 50 results else results)
      in foldl (\<lambda>m item. if HasPrefix (Path item) requestPath
                            then AList.update (Path item) (Info item) m else m)
           [] results')"

definition dirEntries :: "string \<Rightarrow> FileInfo list \<Rightarrow> (string \<times> FileInfo) list" where
  "dirEntries requestPath infos =
     foldl (\<lambda>m info. AList.update (Join requestPath (fiName info)) info m) [] infos"

definition fileJSON :: "OS \<Rightarrow> string \<Rightarrow> string \<Rightarrow> string \<Rightarrow> string \<Rightarrow> FileInfo \<Rightarrow> HTTPFileInfo" where
  "fileJSON os requestPath localPath search path info =
     (let lr = \<lparr>lrName = fiName info, lrPath = path, lrType = [], lrSize = 0,
                lrModTime = fiModTime info sdiv 1000000\<rparr>;
          lr1 = (if search \<noteq> []
                 then lr\<lparr>lrName := (case Rel os requestPath path of Some name \<Rightarrow> name | None \<Rightarrow> [])\<rparr>
                 else lr)
      in if fiIsDir info then
           (let name = deepPath os localPath (fiName info)
            in lr1\<lparr>lrName := name, lrPath := Join (Dir path) name, lrType := ''dir'', lrSize := - 1\<rparr>)
         else lr1\<lparr>lrType := ''file'', lrSize := fiSize info\<rparr>)"

fun listFiles ::
  "'re RegexpEngine \<Rightarrow> OS \<Rightarrow> AccessConf \<Rightarrow> string \<Rightarrow> string \<Rightarrow> string \<Rightarrow>
   (string \<times> FileInfo) list \<Rightarrow> 're ReState \<Rightarrow> HTTPFileInfo list \<times> 're ReState" where
  "listFiles E os auth requestPath localPath search [] st = ([], st)"
| "listFiles E os auth requestPath localPath search ((path, info) # rest) st =
     (case canAccess E auth (fiName info) st of
        (False, st1) \<Rightarrow> listFiles E os auth requestPath localPath search rest st1
      | (True, st1) \<Rightarrow>
          (case listFiles E os auth requestPath localPath search rest st1 of
             (lrs, st2) \<Rightarrow> (fileJSON os requestPath localPath search path info # lrs, st2)))"

text \<open>
  \<open>withPrefix\<close> keeps the index entries whose path starts with the request path.
\<close>

definition withPrefix :: "string \<Rightarrow> IndexFileItem list \<Rightarrow> IndexFileItem list" where
  "withPrefix requestPath items = filter (\<lambda>item. HasPrefix (Path item) requestPath) items"

text \<open>
  \<open>callerAuth\<close> is the policy the handler reports (lines 440 to 442): the resolved
  policy with its two flags replaced by what the caller may do. \<open>allowedBy\<close> is the
  decision of the rules of a policy on a file name, apart from the cache.
\<close>

definition callerAuth :: "HTTPStaticServer \<Rightarrow> OS \<Rightarrow> Session \<Rightarrow> string \<Rightarrow> AccessConf" where
  "callerAuth s os req requestPath =
     (let auth0 = fst (readAccessConf s os requestPath);
          auth1 = auth0\<lparr>Upload := canUpload auth0 req\<rparr>
      in auth1\<lparr>Delete := canDelete auth1 req\<rparr>)"

definition allowedBy :: "'re RegexpEngine \<Rightarrow> AccessConf \<Rightarrow> string \<Rightarrow> bool" where
  "allowedBy E c fileName =
     (case find (ruleMatches E fileName) (AccessTables c) of
        None \<Rightarrow> True
      | Some table \<Rightarrow> Allow table)"

definition hJSONList ::
  "'re RegexpEngine \<Rightarrow> StringsLib \<Rightarrow> HTTPStaticServer \<Rightarrow> OS \<Rightarrow> Session \<Rightarrow> string \<Rightarrow> string \<Rightarrow>
   're ReState \<Rightarrow> (Response + HTTPFileInfo list \<times> AccessConf) \<times> 're ReState" where
  "hJSONList E L s os req requestPath search st =
     (let localPath = Join (Root s) requestPath;
          auth = callerAuth s os req requestPath
      in if search \<noteq> [] then
           (case listFiles E os auth requestPath localPath search (searchEntries L s requestPath search) st of
              (lrs, st') \<Rightarrow> (Inr (lrs, auth), st'))
         else
           (case ReadDir os localPath of
              Inl err \<Rightarrow> (Inl (httpError 500 err), st)
            | Inr infos \<Rightarrow>
                (case listFiles E os auth requestPath localPath search (dirEntries requestPath infos) st of
                   (lrs, st') \<Rightarrow> (Inr (lrs, auth), st'))))"

section \<open>Concrete servers and file systems\<close>

text \<open>
  A server rooted at the working directory with uploads switched on globally, and file
  systems that differ in their sidecar files only; \<^verbatim>\<open>a/b\<close> is a regular file.
\<close>

definition exampleServer :: HTTPStaticServer where
  "exampleServer = \<lparr>Root = ''./'', srvUpload = True, srvDelete = False, indexes = []\<rparr>"

definition uploadDoc :: "bool \<Rightarrow> SidecarDoc" where
  "uploadDoc b = emptyDoc\<lparr>docUpload := Some b\<rparr>"

definition sidecarOS :: "(string \<Rightarrow> ReadResult) \<Rightarrow> OS" where
  "sidecarOS rf =
     \<lparr>isFile = (\<lambda>p. p = ''a/b''), ReadFile = rf, ReadDir = (\<lambda>p. Inl ''no such directory''),
      Remove = (\<lambda>p. None), Rel = (\<lambda>b t. None)\<rparr>"

definition exampleOS :: OS where
  "exampleOS =
     sidecarOS (\<lambda>f. if f = ''.ghs.yml'' then Data (Document (uploadDoc False) False)
                     else if f = ''a/.ghs.yml'' then Data (Document (uploadDoc True) False)
                     else NotExist)"

definition syntaxErrorOS :: OS where
  "syntaxErrorOS =
     sidecarOS (\<lambda>f. if f = ''.ghs.yml'' then Data (Document (uploadDoc False) False)
                     else if f = ''a/.ghs.yml'' then Data SyntaxError
                     else NotExist)"

definition typeErrorOS :: OS where
  "typeErrorOS =
     sidecarOS (\<lambda>f. if f = ''.ghs.yml'' then Data (Document (uploadDoc False) True)
                     else NotExist)"


definition bareOS :: OS where
  "bareOS = sidecarOS (\<lambda>f. NotExist)"

definition grantOS :: OS where
  "grantOS =
     sidecarOS (\<lambda>f. if f = ''.ghs.yml'' then Data (Document (emptyDoc\<lparr>docDelete := Some True\<rparr>) False)
                     else NotExist)"

subsection \<open>The string functions on ASCII\<close>

text \<open>
  To run a search on concrete input the two library functions must be concrete.
  \<open>asciiStrings\<close> gives them for strings of ASCII characters, on which
  \<^verbatim>\<open>strings.Fields\<close> splits at the six ASCII white-space characters and
  \<^verbatim>\<open>strings.ToLower\<close> maps \<^verbatim>\<open>A\<close> to \<^verbatim>\<open>Z\<close> onto \<^verbatim>\<open>a\<close> to \<^verbatim>\<open>z\<close>. It is used on such
  strings only and says nothing of others.
\<close>

definition asciiSpace :: "char \<Rightarrow> bool" where
  "asciiSpace c = (c = CHR '' '' \<or> c = CHR 0x09 \<or> c = CHR 0x0A \<or> c = CHR 0x0B \<or> c = CHR 0x0C \<or> c = CHR 0x0D)"

fun asciiFieldsFrom :: "string \<Rightarrow> string \<Rightarrow> string list" where
  "asciiFieldsFrom cur [] = (if cur = [] then [] else [rev cur])"
| "asciiFieldsFrom cur (c # cs) =
     (if asciiSpace c then (if cur = [] then asciiFieldsFrom [] cs else rev cur # asciiFieldsFrom [] cs)
      else asciiFieldsFrom (c # cur) cs)"

definition asciiLowerChar :: "char \<Rightarrow> char" where
  "asciiLowerChar c =
     (case map_of (zip ''ABCDEFGHIJKLMNOPQRSTUVWXYZ'' ''abcdefghijklmnopqrstuvwxyz'') c of
        Some l \<Rightarrow> l
      | None \<Rightarrow> c)"

definition asciiStrings :: StringsLib where
  "asciiStrings = \<lparr>Fields = asciiFieldsFrom [], ToLower = map asciiLowerChar\<rparr>"

subsection \<open>A reference matcher\<close>

text \<open>
  To run \<^verbatim>\<open>canAccess\<close> on concrete rules the engine must be concrete. \<open>refEngine\<close>
  implements the fragment of the pattern syntax made of literal characters, escaped
  punctuation, \<^verbatim>\<open>.\<close> (any character but a line feed), a postfix \<^verbatim>\<open>*\<close> on one of
  these, and the anchors \<^verbatim>\<open>^\<close> and \<^verbatim>\<open>$\<close>, with the unanchored matching of
  \<^verbatim>\<open>MatchString\<close>. Every other pattern is rejected, among them the ill-formed patterns
  \<^verbatim>\<open>*\<close>, \<^verbatim>\<open>(\<close> and \<^verbatim>\<open>[\<close>, which \<^verbatim>\<open>regexp.Compile\<close> rejects as well.
\<close>

datatype Atom = Lit char | AnyChar | Bol | Eol

definition isMeta :: "char \<Rightarrow> bool" where
  "isMeta c = (c \<in> set ''.*+?()[]{}|^$'' \<or> c = CHR 0x5C)"

fun parseRe :: "string \<Rightarrow> (Atom \<times> bool) list option" where
  "parseRe [] = Some []"
| "parseRe [c] =
     (if c = CHR ''.'' then Some [(AnyChar, False)]
      else if c = CHR ''^'' then Some [(Bol, False)]
      else if c = CHR ''$'' then Some [(Eol, False)]
      else if isMeta c then None
      else Some [(Lit c, False)])"
| "parseRe (c # d # cs) =
     (if c = CHR 0x5C then
        (if isMeta d then
           (case cs of
              [] \<Rightarrow> Some [(Lit d, False)]
            | e # es \<Rightarrow>
                if e = CHR ''*'' then map_option ((#) (Lit d, True)) (parseRe es)
                else map_option ((#) (Lit d, False)) (parseRe (e # es)))
         else None)
      else if c = CHR ''^'' then map_option ((#) (Bol, False)) (parseRe (d # cs))
      else if c = CHR ''$'' then map_option ((#) (Eol, False)) (parseRe (d # cs))
      else if c = CHR ''.'' then
        (if d = CHR ''*'' then map_option ((#) (AnyChar, True)) (parseRe cs)
         else map_option ((#) (AnyChar, False)) (parseRe (d # cs)))
      else if isMeta c then None
      else if d = CHR ''*'' then map_option ((#) (Lit c, True)) (parseRe cs)
      else map_option ((#) (Lit c, False)) (parseRe (d # cs)))"

fun atomMatches :: "Atom \<Rightarrow> char \<Rightarrow> bool" where
  "atomMatches (Lit l) c = (c = l)"
| "atomMatches AnyChar c = (c \<noteq> CHR 0x0A)"
| "atomMatches Bol c = False"
| "atomMatches Eol c = False"

fun matchHere :: "(Atom \<times> bool) list \<Rightarrow> bool \<Rightarrow> string \<Rightarrow> bool" where
  "matchHere [] atStart s = True"
| "matchHere ((Bol, star) # r) atStart s = (atStart \<and> matchHere r atStart s)"
| "matchHere ((Eol, star) # r) atStart s = (s = [] \<and> matchHere r atStart s)"
| "matchHere ((a, False) # r) atStart [] = False"
| "matchHere ((a, False) # r) atStart (c # cs) = (atomMatches a c \<and> matchHere r False cs)"
| "matchHere ((a, True) # r) atStart [] = matchHere r atStart []"
| "matchHere ((a, True) # r) atStart (c # cs) =
     (matchHere r atStart (c # cs) \<or> (atomMatches a c \<and> matchHere ((a, True) # r) False cs))"

fun matchFrom :: "(Atom \<times> bool) list \<Rightarrow> bool \<Rightarrow> string \<Rightarrow> bool" where
  "matchFrom r atStart [] = matchHere r atStart []"
| "matchFrom r atStart (c # cs) = (matchHere r atStart (c # cs) \<or> matchFrom r False cs)"

definition refEngine :: "(Atom \<times> bool) list RegexpEngine" where
  "refEngine = \<lparr>Compile = parseRe, MatchString = (\<lambda>r s. matchFrom r True s)\<rparr>"

definition secretRules :: AccessConf where
  "secretRules =
     \<lparr>Upload = False, Delete = False, Users = [],
      AccessTables = [\<lparr>Regex = CHR 0x5C # ''.secret$'', Allow = False\<rparr>,
                      \<lparr>Regex = ''.*'', Allow = True\<rparr>]\<rparr>"

definition brokenRules :: AccessConf where
  "brokenRules =
     \<lparr>Upload = False, Delete = False, Users = [],
      AccessTables = [\<lparr>Regex = ''('', Allow = False\<rparr>, \<lparr>Regex = ''*'', Allow = False\<rparr>]\<rparr>"

definition brokenThenSecret :: AccessConf where
  "brokenThenSecret =
     \<lparr>Upload = False, Delete = False, Users = [],
      AccessTables = [\<lparr>Regex = ''['', Allow = True\<rparr>,
                      \<lparr>Regex = CHR 0x5C # ''.secret$'', Allow = False\<rparr>]\<rparr>"

definition docsServer :: HTTPStaticServer where
  "docsServer =
     \<lparr>Root = ''./'', srvUpload = False, srvDelete = False,
      indexes =
        [\<lparr>Path = ''docs/readme.md'', Info = \<lparr>fiName = ''readme.md'', fiSize = 120, fiIsDir = False, fiModTime = 0\<rparr>\<rparr>,
         \<lparr>Path = ''docs/notes.txt'', Info = \<lparr>fiName = ''notes.txt'', fiSize = 7, fiIsDir = False, fiModTime = 0\<rparr>\<rparr>,
         \<lparr>Path = ''src/main.go'', Info = \<lparr>fiName = ''main.go'', fiSize = 2048, fiIsDir = False, fiModTime = 0\<rparr>\<rparr>]\<rparr>"

text \<open>
  An index of eighty files whose paths all contain \<^verbatim>\<open>x\<close>: \<^verbatim>\<open>a/x00\<close> to \<^verbatim>\<open>a/x49\<close>, then
  \<^verbatim>\<open>b/x\<close>, then \<^verbatim>\<open>a/x50\<close> to \<^verbatim>\<open>a/x78\<close>.
\<close>

definition fileItem :: "string \<Rightarrow> string \<Rightarrow> IndexFileItem" where
  "fileItem dir name =
     \<lparr>Path = dir @ CHR ''/'' # name,
      Info = \<lparr>fiName = name, fiSize = 1, fiIsDir = False, fiModTime = 0\<rparr>\<rparr>"

definition xFiles :: "string \<Rightarrow> string \<Rightarrow> IndexFileItem list" where
  "xFiles tens units = concat (map (\<lambda>t. map (\<lambda>u. fileItem ''a'' [CHR ''x'', t, u]) units) tens)"

definition bigServer :: HTTPStaticServer where
  "bigServer =
     \<lparr>Root = ''./'', srvUpload = False, srvDelete = False,
      indexes =
        xFiles ''01234'' ''0123456789'' @ [fileItem ''b'' ''x''] @
        xFiles ''56'' ''0123456789'' @ xFiles ''7'' ''012345678''\<rparr>"

text \<open>
  A directory \<^verbatim>\<open>a\<close> whose only child is the directory \<^verbatim>\<open>b\<close>, and so on down to \<^verbatim>\<open>h\<close>,
  which holds one file; and the tree \<^verbatim>\<open>a/b/c/file.txt\<close>.
\<close>

definition dirInfo :: "string \<Rightarrow> FileInfo" where
  "dirInfo name = \<lparr>fiName = name, fiSize = 4096, fiIsDir = True, fiModTime = 0\<rparr>"

definition plainInfo :: "string \<Rightarrow> FileInfo" where
  "plainInfo name = \<lparr>fiName = name, fiSize = 12, fiIsDir = False, fiModTime = 1500000\<rparr>"

definition listingOS :: "(string \<Rightarrow> string + FileInfo list) \<Rightarrow> OS" where
  "listingOS rd =
     \<lparr>isFile = (\<lambda>p. False), ReadFile = (\<lambda>f. NotExist), ReadDir = rd,
      Remove = (\<lambda>p. None), Rel = (\<lambda>b t. None)\<rparr>"

definition chainOS :: OS where
  "chainOS =
     listingOS (\<lambda>p. if p = ''.'' then Inr [dirInfo ''a'']
                    else if p = ''a'' then Inr [dirInfo ''b'']
                    else if p = ''a/b'' then Inr [dirInfo ''c'']
                    else if p = ''a/b/c'' then Inr [dirInfo ''d'']
                    else if p = ''a/b/c/d'' then Inr [dirInfo ''e'']
                    else if p = ''a/b/c/d/e'' then Inr [dirInfo ''f'']
                    else if p = ''a/b/c/d/e/f'' then Inr [dirInfo ''g'']
                    else if p = ''a/b/c/d/e/f/g'' then Inr [dirInfo ''h'']
                    else if p = ''a/b/c/d/e/f/g/h'' then Inr [plainInfo ''file.txt'']
                    else Inl ''no such directory'')"

definition abcOS :: OS where
  "abcOS =
     listingOS (\<lambda>p. if p = ''.'' then Inr [dirInfo ''a'']
                    else if p = ''a'' then Inr [dirInfo ''b'']
                    else if p = ''a/b'' then Inr [dirInfo ''c'']
                    else if p = ''a/b/c'' then Inr [plainInfo ''file.txt'']
                    else Inl ''no such directory'')"

text \<open>
  A tree with two files at the top, a directory that cannot be listed, a name that
  cannot be examined, and a subdirectory with one file; \<^verbatim>\<open>filepath.Rel\<close> from the root
  \<^verbatim>\<open>./\<close> leaves the walk's paths as they are.
\<close>

definition patchyTree :: FsNode where
  "patchyTree =
     Directory [(''a.txt'', RegularFile 3 0), (''bad'', UnreadableDir), (''gone'', NoStat),
                (''sub'', Directory [(''b.txt'', RegularFile 5 0)]), (''z.txt'', RegularFile 8 0)]"

definition walkOS :: OS where
  "walkOS =
     \<lparr>isFile = (\<lambda>p. False), ReadFile = (\<lambda>f. NotExist), ReadDir = (\<lambda>p. Inl ''no such directory''),
      Remove = (\<lambda>p. None), Rel = (\<lambda>b t. Some t)\<rparr>"

section \<open>Properties of the file-name rules\<close>

lemma cachedPattern_hit:
  "cacheInv E st \<Longrightarrow> rx \<in> dom (reCache st) \<Longrightarrow> cachedPattern E rx st = (Compile E rx, st)"
  by (auto simp: cacheInv_def cachedPattern_def)

lemma cachedPattern_inv:
  assumes "cacheInv E st"
  shows "fst (cachedPattern E rx st) = Compile E rx"
    and "cacheInv E (snd (cachedPattern E rx st))"
    and "rx \<in> dom (reCache (snd (cachedPattern E rx st)))"
    and "dom (reCache st) \<subseteq> dom (reCache (snd (cachedPattern E rx st)))"
  using assms
  by (auto simp: cacheInv_def cachedPattern_def Let_def split: option.splits)

lemma canAccessLoop_find:
  "cacheInv E st \<Longrightarrow>
   fst (canAccessLoop E ts n st) =
     (case find (ruleMatches E n) ts of None \<Rightarrow> True | Some t \<Rightarrow> Allow t)"
proof (induction ts arbitrary: st)
  case Nil
  then show ?case by simp
next
  case (Cons t ts)
  obtain p st' where cp: "cachedPattern E (Regex t) st = (p, st')" by (cases "cachedPattern E (Regex t) st")
  have p: "Compile E (Regex t) = p" and inv: "cacheInv E st'"
    using cachedPattern_inv(1,2) [OF Cons.prems, of "Regex t"] cp by simp_all
  show ?case
    using Cons.IH [OF inv] cp p by (cases p) (simp_all add: ruleMatches_def)
qed

lemma canAccessLoop_inv:
  "cacheInv E st \<Longrightarrow>
   cacheInv E (snd (canAccessLoop E ts n st)) \<and>
   dom (reCache st) \<subseteq> dom (reCache (snd (canAccessLoop E ts n st)))"
proof (induction ts arbitrary: st)
  case Nil
  then show ?case by simp
next
  case (Cons t ts)
  obtain p st' where cp: "cachedPattern E (Regex t) st = (p, st')" by (cases "cachedPattern E (Regex t) st")
  have inv: "cacheInv E st'" and sub: "dom (reCache st) \<subseteq> dom (reCache st')"
    using cachedPattern_inv(2,4) [OF Cons.prems, of "Regex t"] cp by simp_all
  show ?case
    using Cons.IH [OF inv] cp inv sub by (cases p) auto
qed

lemma canAccessLoop_again:
  "cacheInv E st \<Longrightarrow> canAccessLoop E ts n st = (r, st') \<Longrightarrow> canAccessLoop E ts n st' = (r, st')"
proof (induction ts arbitrary: st)
  case Nil
  then show ?case by simp
next
  case (Cons t ts)
  obtain p st1 where cp: "cachedPattern E (Regex t) st = (p, st1)" by (cases "cachedPattern E (Regex t) st")
  have p: "Compile E (Regex t) = p" and inv1: "cacheInv E st1"
    and in1: "Regex t \<in> dom (reCache st1)"
    using cachedPattern_inv(1,2,3) [OF Cons.prems(1), of "Regex t"] cp by simp_all
  have hit1: "cachedPattern E (Regex t) st1 = (p, st1)"
    using cachedPattern_hit [OF inv1 in1] p by simp
  show ?case
  proof (cases "\<exists>re. p = Some re \<and> MatchString E re n")
    case True
    then show ?thesis using Cons.prems(2) cp hit1 by auto
  next
    case False
    then have run: "canAccessLoop E ts n st1 = (r, st')"
      using Cons.prems(2) cp by (cases p) auto
    have inv': "cacheInv E st'" and sub: "dom (reCache st1) \<subseteq> dom (reCache st')"
      using canAccessLoop_inv [OF inv1, of ts n] run by simp_all
    have hit': "cachedPattern E (Regex t) st' = (p, st')"
      using cachedPattern_hit [OF inv', of "Regex t"] in1 sub p by blast
    show ?thesis using False hit' Cons.IH [OF inv1 run] by (cases p) auto
  qed
qed

lemma initial_cacheInv: "cacheInv E initialReState"
  by (simp add: cacheInv_def initialReState_def)

lemma reachableRe_cacheInv: "reachableRe E st \<Longrightarrow> cacheInv E st"
  by (induction rule: reachableRe.induct)
     (simp_all add: initial_cacheInv canAccess_def canAccessLoop_inv)

lemma canAccessLoop_cached:
  "cacheInv E st \<Longrightarrow> \<forall>t\<in>set ts. \<not> ruleMatches E n t \<Longrightarrow>
   \<forall>t\<in>set ts. reCache (snd (canAccessLoop E ts n st)) (Regex t) = Some (Compile E (Regex t))"
proof (induction ts arbitrary: st)
  case Nil
  then show ?case by simp
next
  case (Cons t ts)
  obtain p st1 where cp: "cachedPattern E (Regex t) st = (p, st1)" by (cases "cachedPattern E (Regex t) st")
  have p: "Compile E (Regex t) = p" and inv1: "cacheInv E st1"
    and in1: "Regex t \<in> dom (reCache st1)"
    using cachedPattern_inv(1,2,3) [OF Cons.prems(1), of "Regex t"] cp by simp_all
  have nm: "\<forall>t\<in>set ts. \<not> ruleMatches E n t" and nt: "\<not> ruleMatches E n t"
    using Cons.prems(2) by simp_all
  have run: "canAccessLoop E (t # ts) n st = canAccessLoop E ts n st1"
    using cp p nt by (cases p) (simp_all add: ruleMatches_def)
  let ?st' = "snd (canAccessLoop E ts n st1)"
  have inv': "cacheInv E ?st'" and sub: "dom (reCache st1) \<subseteq> dom (reCache ?st')"
    using canAccessLoop_inv [OF inv1, of ts n] by simp_all
  have "Regex t \<in> dom (reCache ?st')" using in1 sub by blast
  then have "reCache ?st' (Regex t) = Some (Compile E (Regex t))"
    using inv' by (auto simp: cacheInv_def)
  then show ?case using Cons.IH [OF inv1 nm] run by simp
qed

lemma find_filter_valid:
  "find (ruleMatches E n) (filter (\<lambda>t. Compile E (Regex t) \<noteq> None) ts) = find (ruleMatches E n) ts"
  by (induction ts) (auto simp: ruleMatches_def)

text \<open>
  C2 (rule precedence). In every state the cache can be in, \<^verbatim>\<open>canAccess\<close> answers with
  the \<open>Allow\<close> of the first rule, in the order of the list, whose pattern matches the
  file name, and with true when no rule's pattern matches. With the rules
  \<^verbatim>\<open>\.secret$\<close> (deny) and \<^verbatim>\<open>.*\<close> (allow), \<^verbatim>\<open>x.secret\<close> is refused and \<^verbatim>\<open>x.txt\<close> admitted.
\<close>

theorem canAccess_first_match:
  "(reachableRe E st \<longrightarrow>
      fst (canAccess E c fileName st) =
        (case find (ruleMatches E fileName) (AccessTables c) of
           None \<Rightarrow> True
         | Some table \<Rightarrow> Allow table)) \<and>
   \<not> fst (canAccess refEngine secretRules ''x.secret'' initialReState) \<and>
   fst (canAccess refEngine secretRules ''x.txt'' initialReState)"
proof (intro conjI impI)
  assume "reachableRe E st"
  then have "cacheInv E st" by (rule reachableRe_cacheInv)
  then show "fst (canAccess E c fileName st) =
        (case find (ruleMatches E fileName) (AccessTables c) of
           None \<Rightarrow> True
         | Some table \<Rightarrow> Allow table)"
    unfolding canAccess_def by (rule canAccessLoop_find)
next
  show "\<not> fst (canAccess refEngine secretRules ''x.secret'' initialReState)" by code_simp
  show "fst (canAccess refEngine secretRules ''x.txt'' initialReState)" by code_simp
qed

theorem canAccess_first_match_witness:
  "reachableRe refEngine (initialReState :: (Atom \<times> bool) list ReState) \<and>
   find (ruleMatches refEngine ''x.secret'') (AccessTables secretRules) =
     Some \<lparr>Regex = CHR 0x5C # ''.secret$'', Allow = False\<rparr> \<and>
   find (ruleMatches refEngine ''x.txt'') (AccessTables secretRules) =
     Some \<lparr>Regex = ''.*'', Allow = True\<rparr> \<and>
   find (ruleMatches refEngine ''x.txt'') [] = None \<and>
   fst (canAccess refEngine secretRules ''x.secret'' initialReState) = False \<and>
   fst (canAccess refEngine secretRules ''x.txt'' initialReState) = True \<and>
   fst (canAccess refEngine (secretRules\<lparr>AccessTables := []\<rparr>) ''x.txt'' initialReState) = True"
proof -
  have r: "reachableRe refEngine (initialReState :: (Atom \<times> bool) list ReState)"
    by (rule reachableRe.init)
  have f1: "find (ruleMatches refEngine ''x.secret'') (AccessTables secretRules) =
     Some \<lparr>Regex = CHR 0x5C # ''.secret$'', Allow = False\<rparr>"
    by code_simp
  have f2: "find (ruleMatches refEngine ''x.txt'') (AccessTables secretRules) =
     Some \<lparr>Regex = ''.*'', Allow = True\<rparr>"
    by code_simp
  note t = canAccess_first_match [where E = refEngine and st = initialReState]
  have a1: "fst (canAccess refEngine secretRules ''x.secret'' initialReState) = False"
    using t [of secretRules "''x.secret''"] r f1 by simp
  have a2: "fst (canAccess refEngine secretRules ''x.txt'' initialReState) = True"
    using t [of secretRules "''x.txt''"] r f2 by simp
  have a3: "fst (canAccess refEngine (secretRules\<lparr>AccessTables := []\<rparr>) ''x.txt'' initialReState) = True"
    using t [of "secretRules\<lparr>AccessTables := []\<rparr>" "''x.txt''"] r by simp
  show ?thesis using r f1 f2 a1 a2 a3 by simp
qed

text \<open>
  C3 (patterns that do not compile). A failed compilation is the value \<open>None\<close>, which
  the loop passes over: the answer is the one obtained with the rules of invalid
  pattern removed, so such a rule matches no file name and the rules after it are still
  evaluated; if every rule is invalid the answer is true and every pattern is cached
  as failed. No pattern is ever compiled twice: the patterns compiled so far are
  distinct, each is in the cache with the result of its compilation, and asking the same
  question again compiles nothing and changes nothing.
\<close>

theorem canAccess_invalid_pattern:
  "reachableRe E st \<longrightarrow>
     fst (canAccess E c fileName st) =
       fst (canAccess E (c\<lparr>AccessTables := filter (\<lambda>t. Compile E (Regex t) \<noteq> None) (AccessTables c)\<rparr>)
              fileName st) \<and>
     ((\<forall>t\<in>set (AccessTables c). Compile E (Regex t) = None) \<longrightarrow>
        fst (canAccess E c fileName st) \<and>
        (\<forall>t\<in>set (AccessTables c). reCache (snd (canAccess E c fileName st)) (Regex t) = Some None)) \<and>
     reachableRe E (snd (canAccess E c fileName st)) \<and>
     distinct (compiled (snd (canAccess E c fileName st))) \<and>
     (\<forall>rx\<in>set (compiled (snd (canAccess E c fileName st))).
        reCache (snd (canAccess E c fileName st)) rx = Some (Compile E rx)) \<and>
     canAccess E c fileName (snd (canAccess E c fileName st)) =
       (fst (canAccess E c fileName st), snd (canAccess E c fileName st))"
proof
  assume r: "reachableRe E st"
  then have inv: "cacheInv E st" by (rule reachableRe_cacheInv)
  let ?st' = "snd (canAccess E c fileName st)"
  have r': "reachableRe E ?st'" using r by (rule reachableRe.step)
  then have inv': "cacheInv E ?st'" by (rule reachableRe_cacheInv)
  have skip: "fst (canAccess E c fileName st) =
       fst (canAccess E (c\<lparr>AccessTables := filter (\<lambda>t. Compile E (Regex t) \<noteq> None) (AccessTables c)\<rparr>)
              fileName st)"
    using canAccessLoop_find [OF inv, of "AccessTables c" fileName]
      canAccessLoop_find [OF inv, of "filter (\<lambda>t. Compile E (Regex t) \<noteq> None) (AccessTables c)" fileName]
      find_filter_valid [of E fileName "AccessTables c"]
    by (simp add: canAccess_def)
  have allbad: "fst (canAccess E c fileName st) \<and>
        (\<forall>t\<in>set (AccessTables c). reCache ?st' (Regex t) = Some None)"
    if bad: "\<forall>t\<in>set (AccessTables c). Compile E (Regex t) = None"
  proof -
    have nm: "\<forall>t\<in>set (AccessTables c). \<not> ruleMatches E fileName t"
      using bad by (simp add: ruleMatches_def)
    then have "find (ruleMatches E fileName) (AccessTables c) = None"
      by (simp add: find_None_iff)
    then have "fst (canAccess E c fileName st)"
      by (simp add: canAccess_def canAccessLoop_find [OF inv])
    moreover have "\<forall>t\<in>set (AccessTables c). reCache ?st' (Regex t) = Some None"
      using canAccessLoop_cached [OF inv nm] bad by (simp add: canAccess_def)
    ultimately show ?thesis by simp
  qed
  have dist: "distinct (compiled ?st')" using inv' by (simp add: cacheInv_def)
  have cached: "\<forall>rx\<in>set (compiled ?st'). reCache ?st' rx = Some (Compile E rx)"
    using inv' by (auto simp: cacheInv_def)
  have again: "canAccess E c fileName ?st' = (fst (canAccess E c fileName st), ?st')"
    unfolding canAccess_def by (rule canAccessLoop_again [OF inv]) simp
  show "fst (canAccess E c fileName st) =
       fst (canAccess E (c\<lparr>AccessTables := filter (\<lambda>t. Compile E (Regex t) \<noteq> None) (AccessTables c)\<rparr>)
              fileName st) \<and>
     ((\<forall>t\<in>set (AccessTables c). Compile E (Regex t) = None) \<longrightarrow>
        fst (canAccess E c fileName st) \<and>
        (\<forall>t\<in>set (AccessTables c). reCache ?st' (Regex t) = Some None)) \<and>
     reachableRe E ?st' \<and>
     distinct (compiled ?st') \<and>
     (\<forall>rx\<in>set (compiled ?st'). reCache ?st' rx = Some (Compile E rx)) \<and>
     canAccess E c fileName ?st' = (fst (canAccess E c fileName st), ?st')"
    using skip allbad r' dist cached again by blast
qed

theorem canAccess_invalid_pattern_witness:
  "reachableRe refEngine (initialReState :: (Atom \<times> bool) list ReState) \<and>
   AccessTables brokenRules = [\<lparr>Regex = ''('', Allow = False\<rparr>, \<lparr>Regex = ''*'', Allow = False\<rparr>] \<and>
   Compile refEngine ''('' = None \<and> Compile refEngine ''*'' = None \<and>
   fst (canAccess refEngine brokenRules ''x.txt'' initialReState) \<and>
   reCache (snd (canAccess refEngine brokenRules ''x.txt'' initialReState)) ''('' = Some None \<and>
   reCache (snd (canAccess refEngine brokenRules ''x.txt'' initialReState)) ''*'' = Some None \<and>
   compiled (snd (canAccess refEngine brokenRules ''x.txt'' initialReState)) = [''('', ''*''] \<and>
   compiled (snd (canAccess refEngine brokenRules ''x.txt''
                    (snd (canAccess refEngine brokenRules ''x.txt'' initialReState)))) = [''('', ''*''] \<and>
   Compile refEngine ''['' = None \<and>
   \<not> fst (canAccess refEngine brokenThenSecret ''x.secret'' initialReState) \<and>
   fst (canAccess refEngine brokenThenSecret ''x.txt'' initialReState)"
proof -
  have r: "reachableRe refEngine (initialReState :: (Atom \<times> bool) list ReState)"
    by (rule reachableRe.init)
  have ts: "AccessTables brokenRules = [\<lparr>Regex = ''('', Allow = False\<rparr>, \<lparr>Regex = ''*'', Allow = False\<rparr>]"
    by (simp add: brokenRules_def)
  have b1: "Compile refEngine ''('' = None" by code_simp
  have b2: "Compile refEngine ''*'' = None" by code_simp
  have b3: "Compile refEngine ''['' = None" by code_simp
  have c: "compiled (snd (canAccess refEngine brokenRules ''x.txt'' initialReState)) = [''('', ''*'']"
    by code_simp
  have e1: "\<not> fst (canAccess refEngine brokenThenSecret ''x.secret'' initialReState)" by code_simp
  have e2: "fst (canAccess refEngine brokenThenSecret ''x.txt'' initialReState)" by code_simp
  have bad: "\<forall>t\<in>set (AccessTables brokenRules). Compile refEngine (Regex t) = None"
    using b1 b2 by (simp add: ts)
  note t = canAccess_invalid_pattern [of refEngine initialReState brokenRules "''x.txt''"]
  have a: "fst (canAccess refEngine brokenRules ''x.txt'' initialReState)"
    using t r bad by blast
  have k: "\<forall>t\<in>set (AccessTables brokenRules).
      reCache (snd (canAccess refEngine brokenRules ''x.txt'' initialReState)) (Regex t) = Some None"
    using t r bad by blast
  have again: "canAccess refEngine brokenRules ''x.txt'' (snd (canAccess refEngine brokenRules ''x.txt'' initialReState)) =
      (fst (canAccess refEngine brokenRules ''x.txt'' initialReState),
       snd (canAccess refEngine brokenRules ''x.txt'' initialReState))"
    using t r by blast
  show ?thesis using r ts b1 b2 b3 c e1 e2 a k by (simp add: again)
qed

section \<open>Properties of the search\<close>




text \<open>
  On ASCII the tokens are the maximal runs of characters other than white space: white
  space in front is passed over, a run up to the next white space is a token, and no
  token is empty or holds white space.
\<close>

lemma asciiFieldsFrom_token:
  "\<forall>c\<in>set tok. \<not> asciiSpace c \<Longrightarrow>
   asciiFieldsFrom cur (tok @ s) = asciiFieldsFrom (rev tok @ cur) s"
  by (induction tok arbitrary: cur) simp_all

lemma asciiFieldsFrom_spaces:
  "\<forall>c\<in>set ws. asciiSpace c \<Longrightarrow> asciiFieldsFrom [] (ws @ s) = asciiFieldsFrom [] s"
  by (induction ws) simp_all

lemma asciiFieldsFrom_tokens:
  "\<forall>c\<in>set cur. \<not> asciiSpace c \<Longrightarrow>
   \<forall>t\<in>set (asciiFieldsFrom cur s). t \<noteq> [] \<and> (\<forall>c\<in>set t. \<not> asciiSpace c)"
proof (induction s arbitrary: cur)
  case Nil
  then show ?case by auto
next
  case (Cons a s)
  have e: "\<forall>t\<in>set (asciiFieldsFrom [] s). t \<noteq> [] \<and> (\<forall>c\<in>set t. \<not> asciiSpace c)"
    using Cons.IH [of "[]"] by simp
  have n: "\<forall>t\<in>set (asciiFieldsFrom (a # cur) s). t \<noteq> [] \<and> (\<forall>c\<in>set t. \<not> asciiSpace c)"
    if "\<not> asciiSpace a"
    using Cons.IH [of "a # cur"] Cons.prems that by simp
  show ?case
  proof (cases "asciiSpace a")
    case True
    then show ?thesis using e Cons.prems by auto
  next
    case False
    then show ?thesis using n by simp
  qed
qed

lemma asciiFields_tokens:
  "\<forall>t\<in>set (Fields asciiStrings q). t \<noteq> [] \<and> (\<forall>c\<in>set t. \<not> asciiSpace c)"
  using asciiFieldsFrom_tokens [of "[]" q] by (simp add: asciiStrings_def)

lemma asciiFields_last:
  assumes "\<forall>c\<in>set ws. asciiSpace c" and "tok \<noteq> []" and "\<forall>c\<in>set tok. \<not> asciiSpace c"
  shows "Fields asciiStrings (ws @ tok) = [tok]"
  using assms asciiFieldsFrom_token [of tok "[]" "[]"]
  by (simp add: asciiStrings_def asciiFieldsFrom_spaces)

lemma asciiFields_next:
  assumes "\<forall>c\<in>set ws. asciiSpace c" and "tok \<noteq> []" and "\<forall>c\<in>set tok. \<not> asciiSpace c"
    and "asciiSpace sp"
  shows "Fields asciiStrings (ws @ tok @ sp # rest) = tok # Fields asciiStrings rest"
  using assms by (simp add: asciiStrings_def asciiFieldsFrom_spaces asciiFieldsFrom_token)



section \<open>Properties of the listing\<close>

lemma searchFold_keys:
  "fst ` set (foldl (\<lambda>m item. if P item then AList.update (Path item) (Info item) m else m) m0 xs) =
   fst ` set m0 \<union> Path ` set (filter P xs)"
  by (induction xs arbitrary: m0) (auto simp: AList.dom_update)

lemma searchFold_distinct:
  "distinct (map fst m0) \<Longrightarrow>
   distinct (map fst (foldl (\<lambda>m item. if P item then AList.update (Path item) (Info item) m else m) m0 xs))"
  by (induction xs arbitrary: m0) (auto simp: AList.distinct_update)

lemma length_update_le: "length (AList.update k v al) \<le> Suc (length al)"
  by (induction al) auto

lemma searchFold_length:
  "length (foldl (\<lambda>m item. if P item then AList.update (Path item) (Info item) m else m) m0 xs)
   \<le> length m0 + length xs"
proof (induction xs arbitrary: m0)
  case Nil
  then show ?case by simp
next
  case (Cons x xs)
  have "length (AList.update (Path x) (Info x) m0) \<le> Suc (length m0)"
    by (rule length_update_le)
  then show ?case using Cons.IH [of "AList.update (Path x) (Info x) m0"] Cons.IH [of m0]
    by (cases "P x") auto
qed

lemma searchEntries_take:
  "searchEntries L s requestPath search =
     foldl (\<lambda>m item. if HasPrefix (Path item) requestPath
                        then AList.update (Path item) (Info item) m else m)
       [] (take 50 (findIndex L s search))"
  by (simp add: searchEntries_def Let_def)

lemma canAccess_allowedBy:
  "cacheInv E st \<Longrightarrow> fst (canAccess E c n st) = allowedBy E c n"
  by (simp add: canAccess_def allowedBy_def canAccessLoop_find)

lemma canAccess_cacheInv:
  "cacheInv E st \<Longrightarrow> cacheInv E (snd (canAccess E c n st))"
  by (simp add: canAccess_def canAccessLoop_inv)

lemma listFiles_filter:
  "cacheInv E st \<Longrightarrow>
   fst (listFiles E os auth rp lp search m st) =
     map (\<lambda>(path, info). fileJSON os rp lp search path info)
       (filter (\<lambda>(path, info). allowedBy E auth (fiName info)) m)"
proof (induction m arbitrary: st)
  case Nil
  then show ?case by simp
next
  case (Cons e m)
  obtain path info where e: "e = (path, info)" by (cases e)
  obtain ok st1 where ca: "canAccess E auth (fiName info) st = (ok, st1)"
    by (cases "canAccess E auth (fiName info) st")
  have ok: "ok = allowedBy E auth (fiName info)"
    using canAccess_allowedBy [OF Cons.prems, of auth "fiName info"] ca by simp
  have inv1: "cacheInv E st1"
    using canAccess_cacheInv [OF Cons.prems, of auth "fiName info"] ca by simp
  obtain lrs st2 where rest: "listFiles E os auth rp lp search m st1 = (lrs, st2)"
    by (cases "listFiles E os auth rp lp search m st1")
  have lrs: "lrs = map (\<lambda>(path, info). fileJSON os rp lp search path info)
       (filter (\<lambda>(path, info). allowedBy E auth (fiName info)) m)"
    using Cons.IH [OF inv1] rest by simp
  show ?case
    using e ca ok rest lrs by (cases ok) simp_all
qed

text \<open>
  C5 (search results in a listing), as the code has it. For a non-empty query the
  handler cuts the search results to the first fifty and only then keeps those whose
  path starts with the request path, one entry per path; the listing has one record
  for each of these whose file name the rules admit. So a listing never has more than
  fifty entries, whatever the number of matches, and when the index has at most fifty
  matches in all, every match below the request path is among the entries.
\<close>

theorem search_listing_cap:
  "search \<noteq> [] \<and> reachableRe E st \<longrightarrow>
     fst (hJSONList E L s os req requestPath search st) =
       Inr (map (\<lambda>(path, info). fileJSON os requestPath (Join (Root s) requestPath) search path info)
              (filter (\<lambda>(path, info). allowedBy E (callerAuth s os req requestPath) (fiName info))
                 (searchEntries L s requestPath search)),
            callerAuth s os req requestPath) \<and>
     length (searchEntries L s requestPath search) \<le> 50 \<and>
     distinct (map fst (searchEntries L s requestPath search)) \<and>
     fst ` set (searchEntries L s requestPath search) =
       Path ` set (withPrefix requestPath (take 50 (findIndex L s search))) \<and>
     (length (findIndex L s search) \<le> 50 \<longrightarrow>
        fst ` set (searchEntries L s requestPath search) =
          Path ` set (withPrefix requestPath (findIndex L s search)))"
proof
  assume a: "search \<noteq> [] \<and> reachableRe E st"
  then have inv: "cacheInv E st" using reachableRe_cacheInv by blast
  let ?m = "searchEntries L s requestPath search"
  let ?auth = "callerAuth s os req requestPath"
  have l: "fst (hJSONList E L s os req requestPath search st) =
       Inr (map (\<lambda>(path, info). fileJSON os requestPath (Join (Root s) requestPath) search path info)
              (filter (\<lambda>(path, info). allowedBy E ?auth (fiName info)) ?m), ?auth)"
  proof -
    obtain lrs st' where run: "listFiles E os ?auth requestPath (Join (Root s) requestPath) search ?m st = (lrs, st')"
      by (cases "listFiles E os ?auth requestPath (Join (Root s) requestPath) search ?m st")
    have "lrs = map (\<lambda>(path, info). fileJSON os requestPath (Join (Root s) requestPath) search path info)
              (filter (\<lambda>(path, info). allowedBy E ?auth (fiName info)) ?m)"
      using listFiles_filter [OF inv, of os ?auth requestPath "Join (Root s) requestPath" search ?m] run
      by simp
    then show ?thesis using a run by (simp add: hJSONList_def Let_def)
  qed
  have len: "length ?m \<le> 50"
    using searchFold_length [of "\<lambda>item. HasPrefix (Path item) requestPath" "[]" "take 50 (findIndex L s search)"]
    by (simp add: searchEntries_take)
  have d: "distinct (map fst ?m)"
    unfolding searchEntries_take by (rule searchFold_distinct) simp
  have k: "fst ` set ?m = Path ` set (withPrefix requestPath (take 50 (findIndex L s search)))"
    by (simp add: searchEntries_take searchFold_keys withPrefix_def)
  have k': "length (findIndex L s search) \<le> 50 \<longrightarrow>
        fst ` set ?m = Path ` set (withPrefix requestPath (findIndex L s search))"
    using k by simp
  show "fst (hJSONList E L s os req requestPath search st) =
       Inr (map (\<lambda>(path, info). fileJSON os requestPath (Join (Root s) requestPath) search path info)
              (filter (\<lambda>(path, info). allowedBy E ?auth (fiName info)) ?m), ?auth) \<and>
     length ?m \<le> 50 \<and> distinct (map fst ?m) \<and>
     fst ` set ?m = Path ` set (withPrefix requestPath (take 50 (findIndex L s search))) \<and>
     (length (findIndex L s search) \<le> 50 \<longrightarrow>
        fst ` set ?m = Path ` set (withPrefix requestPath (findIndex L s search)))"
    using l len d k k' by blast
qed

theorem search_listing_cap_witness:
  "''x'' \<noteq> [] \<and> reachableRe refEngine (initialReState :: (Atom \<times> bool) list ReState) \<and>
   length (findIndex asciiStrings bigServer ''x'') = 80 \<and>
   length (searchEntries asciiStrings bigServer ''a'' ''x'') = 50 \<and>
   (\<exists>lrs. fst (hJSONList refEngine asciiStrings bigServer bareOS NoUser ''a'' ''x'' initialReState) =
            Inr (lrs, callerAuth bigServer bareOS NoUser ''a'') \<and> length lrs = 50) \<and>
   length (findIndex asciiStrings docsServer ''docs'') = 2 \<and>
   map fst (searchEntries asciiStrings docsServer ''docs/n'' ''docs'') = [''docs/notes.txt'']"
proof -
  have r: "reachableRe refEngine (initialReState :: (Atom \<times> bool) list ReState)"
    by (rule reachableRe.init)
  have n: "length (findIndex asciiStrings bigServer ''x'') = 80" by code_simp
  have m: "length (searchEntries asciiStrings bigServer ''a'' ''x'') = 50" by code_simp
  have f: "filter (\<lambda>(path, info). allowedBy refEngine (callerAuth bigServer bareOS NoUser ''a'') (fiName info))
             (searchEntries asciiStrings bigServer ''a'' ''x'') = searchEntries asciiStrings bigServer ''a'' ''x''"
    by code_simp
  have d1: "length (findIndex asciiStrings docsServer ''docs'') = 2" by code_simp
  have d2: "map fst (searchEntries asciiStrings docsServer ''docs/n'' ''docs'') = [''docs/notes.txt'']" by code_simp
  from search_listing_cap [where search = "''x''" and E = refEngine and st = initialReState and L = asciiStrings
      and s = bigServer and os = bareOS and req = NoUser and requestPath = "''a''"] r
  have "fst (hJSONList refEngine asciiStrings bigServer bareOS NoUser ''a'' ''x'' initialReState) =
       Inr (map (\<lambda>(path, info). fileJSON bareOS ''a'' (Join (Root bigServer) ''a'') ''x'' path info)
              (filter (\<lambda>(path, info). allowedBy refEngine (callerAuth bigServer bareOS NoUser ''a'') (fiName info))
                 (searchEntries asciiStrings bigServer ''a'' ''x'')),
            callerAuth bigServer bareOS NoUser ''a'')"
    by simp
  then have "\<exists>lrs. fst (hJSONList refEngine asciiStrings bigServer bareOS NoUser ''a'' ''x'' initialReState) =
            Inr (lrs, callerAuth bigServer bareOS NoUser ''a'') \<and> length lrs = 50"
    using m by (simp add: f)
  then show ?thesis using r n m d1 d2 by simp
qed

text \<open>
  The claim that all matches below the request path are listed whenever there are
  fewer than fifty of them fails: of eighty matches, the only one below \<^verbatim>\<open>b\<close> is the
  fifty-first, its name is admitted by the rules, and the listing of \<^verbatim>\<open>b\<close> is empty.
\<close>

theorem search_listing_counterexample:
  "length (findIndex asciiStrings bigServer ''x'') = 80 \<and>
   map Path (withPrefix ''b'' (findIndex asciiStrings bigServer ''x'')) = [''b/x''] \<and>
   allowedBy refEngine (callerAuth bigServer bareOS NoUser ''b'') ''x'' \<and>
   fst (hJSONList refEngine asciiStrings bigServer bareOS NoUser ''b'' ''x'' initialReState) =
     Inr ([], \<lparr>Upload = False, Delete = False, Users = [], AccessTables = []\<rparr>)"
  by code_simp


lemma deepPathLoop_hops:
  "\<exists>ks. length ks \<le> Suc maxDepth - depth \<and> deepPathLoop os basedir depth name = foldl Join name ks"
proof (induction os basedir depth name rule: deepPathLoop.induct)
  case (1 os basedir depth name)
  have stop: "\<exists>ks. length ks \<le> Suc maxDepth - depth \<and> name = foldl Join name ks"
    by (rule exI [of _ "[]"]) simp
  show ?case
  proof (cases "depth \<le> maxDepth")
    case False
    then show ?thesis using stop by (simp add: deepPathLoop.simps [of os basedir depth name])
  next
    case le: True
    show ?thesis
    proof (cases "ReadDir os (Join basedir name)")
      case (Inl e)
      then show ?thesis using stop le by (simp add: deepPathLoop.simps [of os basedir depth name])
    next
      case (Inr finfos)
      show ?thesis
      proof (cases finfos)
        case Nil
        then show ?thesis using stop le Inr
          by (simp add: deepPathLoop.simps [of os basedir depth name])
      next
        case (Cons f more)
        show ?thesis
        proof (cases "more = [] \<and> fiIsDir f")
          case False
          then have "deepPathLoop os basedir depth name = name"
            using le Inr Cons
            by (cases more) (simp_all add: deepPathLoop.simps [of os basedir depth name])
          then show ?thesis using stop by simp
        next
          case True
          then have f: "finfos = [f]" "fiIsDir f" and m: "more = []" using Cons by simp_all
          from "1.IH" [OF le Inr Cons m f(2)] obtain ks where
            ks: "length ks \<le> Suc maxDepth - (depth + 1)"
                "deepPathLoop os basedir (depth + 1) (Join name (fiName f)) = foldl Join (Join name (fiName f)) ks"
            by blast
          have "deepPathLoop os basedir depth name = foldl Join name (fiName f # ks)"
            using le Inr f ks(2) by (simp add: deepPathLoop.simps [of os basedir depth name])
          moreover have "length (fiName f # ks) \<le> Suc maxDepth - depth"
            using ks(1) le by simp
          ultimately show ?thesis by blast
        qed
      qed
    qed
  qed
qed

text \<open>
  C6 (folding of single-child directories). \<^verbatim>\<open>deepPath\<close> extends the name by the single
  child directory for as long as there is one, and stops at a read error, at a
  directory with no or several children, and at a single child that is a file: the
  tree \<^verbatim>\<open>a/b/c/file.txt\<close> is listed as the one entry \<^verbatim>\<open>a/b/c\<close>. The loop, though, runs
  for the depths 0 to 5, that is six times: a chain of eight directories is folded six
  levels deep, one more than the five that the comment in the source announces.
\<close>

theorem deepPath_six_hops:
  "(\<exists>ks. length ks \<le> 6 \<and> deepPath os basedir name = foldl Join name ks) \<and>
   deepPath chainOS ''.'' ''a'' = foldl Join ''a'' [''b'', ''c'', ''d'', ''e'', ''f'', ''g''] \<and>
   deepPath chainOS ''.'' ''a'' = ''a/b/c/d/e/f/g'' \<and>
   deepPath abcOS ''.'' ''a'' = ''a/b/c'' \<and>
   fst (hJSONList refEngine asciiStrings exampleServer abcOS NoUser [] [] initialReState) =
     Inr ([\<lparr>lrName = ''a/b/c'', lrPath = ''a/b/c'', lrType = ''dir'', lrSize = - 1, lrModTime = 0\<rparr>],
          \<lparr>Upload = True, Delete = False, Users = [], AccessTables = []\<rparr>)"
proof -
  have g: "\<exists>ks. length ks \<le> 6 \<and> deepPath os basedir name = foldl Join name ks"
    using deepPathLoop_hops [of 0 os basedir name] by (simp add: deepPath_def maxDepth_def)
  have c1: "deepPath chainOS ''.'' ''a'' = foldl Join ''a'' [''b'', ''c'', ''d'', ''e'', ''f'', ''g'']"
    by code_simp
  have c2: "deepPath chainOS ''.'' ''a'' = ''a/b/c/d/e/f/g''" by code_simp
  have c3: "deepPath abcOS ''.'' ''a'' = ''a/b/c''" by code_simp
  have c4: "fst (hJSONList refEngine asciiStrings exampleServer abcOS NoUser [] [] initialReState) =
     Inr ([\<lparr>lrName = ''a/b/c'', lrPath = ''a/b/c'', lrType = ''dir'', lrSize = - 1, lrModTime = 0\<rparr>],
          \<lparr>Upload = True, Delete = False, Users = [], AccessTables = []\<rparr>)"
    by code_simp
  show ?thesis using g c1 c2 c3 c4 by blast
qed


section \<open>Properties of the index build\<close>

lemma indexFn_file:
  "\<not> fiIsDir fi \<Longrightarrow>
   indexFn s os path (Some fi) False st = (None, fst st @ [indexItem s os (path, fi)], snd st)"
  by (cases st) (simp add: indexFn_def indexItem_def)

lemma indexFn_dir:
  "fiIsDir fi \<Longrightarrow> indexFn s os path (Some fi) False st = (None, st)"
  by (cases st) (simp add: indexFn_def)

lemma indexFn_err:
  "indexFn s os path info True st = (Some SkipDir, fst st, snd st @ [path])"
  by (cases st) (simp add: indexFn_def)

lemma walk_index:
  "walk (indexFn s os) path name node st =
     (if cannotOpen node then Some SkipDir else None,
      fst st @ map (indexItem s os) (treeFiles path name node),
      snd st @ treeWarned path node)"
proof (induction node arbitrary: path name st)
  case (RegularFile sz mt)
  show ?case by (simp add: indexFn_file nodeInfo_def cannotOpen_def)
next
  case UnreadableDir
  show ?case by (simp add: indexFn_err cannotOpen_def)
next
  case NoStat
  show ?case by (simp add: indexFn_err cannotOpen_def)
next
  case (Directory entries)
  have es: "walkEntries (indexFn s os) path es st =
      (None, fst st @ map (indexItem s os) (entriesFiles path es), snd st @ entriesWarned path es)"
    if "set es \<subseteq> set entries" for es st
    using that
  proof (induction es arbitrary: st)
    case Nil
    then show ?case by simp
  next
    case (Cons e es)
    obtain nm nd where e: "e = (nm, nd)" by (cases e)
    have mem: "(nm, nd) \<in> set entries" using Cons.prems e by simp
    have w: "walk (indexFn s os) (Join path nm) nm nd st =
       (if cannotOpen nd then Some SkipDir else None,
        fst st @ map (indexItem s os) (treeFiles (Join path nm) nm nd),
        snd st @ treeWarned (Join path nm) nd)"
      by (rule Directory.IH [OF mem]) simp
    have rest: "set es \<subseteq> set entries" using Cons.prems by simp
    let ?st1 = "(fst st @ map (indexItem s os) (treeFiles (Join path nm) nm nd),
                 snd st @ treeWarned (Join path nm) nd)"
    have next_st: "walkEntries (indexFn s os) path es ?st1 =
        (None, fst st @ map (indexItem s os) (entriesFiles path ((nm, nd) # es)),
         snd st @ entriesWarned path ((nm, nd) # es))"
      using Cons.IH [OF rest, of ?st1] by simp
    have step: "walkEntries (indexFn s os) path ((nm, nd) # es) st =
        walkEntries (indexFn s os) path es ?st1"
    proof (cases "cannotOpen nd")
      case False
      then show ?thesis using w by simp
    next
      case True
      then have "nd = NoStat \<or> fiIsDir (nodeInfo nm nd)"
        by (auto simp: cannotOpen_def nodeInfo_def)
      then show ?thesis using w True by auto
    qed
    show ?case unfolding e step by (rule next_st)
  qed
  show ?case
    using es [of entries st] by (simp add: indexFn_dir nodeInfo_def cannotOpen_def)
qed

lemma treeFiles_not_dir:
  "e \<in> set (treeFiles path name node) \<Longrightarrow> \<not> fiIsDir (snd e)"
  "e \<in> set (entriesFiles path entries) \<Longrightarrow> \<not> fiIsDir (snd e)"
  by (induction path name node and path entries rule: treeFiles_entriesFiles.induct)
     (auto simp: nodeInfo_def)

lemma makeIndex_of_walk:
  "walk (indexFn s os) (Root s) (Base (Root s)) tree ([], []) = (err, items, warned) \<Longrightarrow>
   makeIndex legacy s os tree =
     (s\<lparr>indexes := items\<rparr>, (if err = Some SkipDir \<and> \<not> legacy then None else err), warned)"
  by (simp add: makeIndex_def Walk_def)

text \<open>
  C8 (a build tolerates errors). The entries of a build are the regular files of the
  tree, in the order of the walk, and none of them is a directory; a directory that
  cannot be listed and a name that cannot be examined are warned about and contribute
  no entry, and the entries of their siblings and of the rest of the tree are collected
  all the same. The build reports an error only if the root itself cannot be examined
  or listed, and then only with the releases of the library that hand the callback's
  answer for the root back to the caller.
\<close>

theorem makeIndex_tolerant:
  "indexes (fst (makeIndex legacy s os tree)) =
     map (indexItem s os) (treeFiles (Root s) (Base (Root s)) tree) \<and>
   (\<forall>item\<in>set (indexes (fst (makeIndex legacy s os tree))). \<not> fiIsDir (Info item)) \<and>
   snd (snd (makeIndex legacy s os tree)) = treeWarned (Root s) tree \<and>
   fst (snd (makeIndex legacy s os tree)) =
     (if legacy \<and> cannotOpen tree then Some SkipDir else None) \<and>
   (fst (snd (makeIndex legacy s os tree)) \<noteq> None \<longrightarrow> tree = NoStat \<or> tree = UnreadableDir) \<and>
   entriesFiles path ((name, NoStat) # rest) = entriesFiles path rest \<and>
   entriesFiles path ((name, UnreadableDir) # rest) = entriesFiles path rest \<and>
   entriesFiles path ((name, Directory sub) # rest) =
     entriesFiles (Join path name) sub @ entriesFiles path rest"
proof -
  let ?items = "map (indexItem s os) (treeFiles (Root s) (Base (Root s)) tree)"
  let ?err = "if legacy \<and> cannotOpen tree then Some SkipDir else None"
  have w: "walk (indexFn s os) (Root s) (Base (Root s)) tree ([], []) =
      (if cannotOpen tree then Some SkipDir else None, ?items, treeWarned (Root s) tree)"
    by (simp add: walk_index)
  have m: "makeIndex legacy s os tree = (s\<lparr>indexes := ?items\<rparr>, ?err, treeWarned (Root s) tree)"
  proof (cases "cannotOpen tree")
    case True
    then have "walk (indexFn s os) (Root s) (Base (Root s)) tree ([], []) =
        (Some SkipDir, ?items, treeWarned (Root s) tree)"
      using w by simp
    from makeIndex_of_walk [OF this, of legacy] True show ?thesis by (cases legacy) simp_all
  next
    case False
    then have "walk (indexFn s os) (Root s) (Base (Root s)) tree ([], []) =
        (None, ?items, treeWarned (Root s) tree)"
      using w by simp
    from makeIndex_of_walk [OF this, of legacy] False show ?thesis by simp
  qed
  have i: "indexes (fst (makeIndex legacy s os tree)) = ?items" unfolding m by simp
  have e: "fst (snd (makeIndex legacy s os tree)) = ?err" unfolding m by simp
  have l: "snd (snd (makeIndex legacy s os tree)) = treeWarned (Root s) tree" unfolding m by simp
  have nd: "\<forall>item\<in>set ?items. \<not> fiIsDir (Info item)"
  proof
    fix item
    assume "item \<in> set ?items"
    then obtain e where e: "e \<in> set (treeFiles (Root s) (Base (Root s)) tree)" "item = indexItem s os e"
      by auto
    then show "\<not> fiIsDir (Info item)"
      using treeFiles_not_dir(1) [OF e(1)] by (simp add: indexItem_def)
  qed
  have only: "fst (snd (makeIndex legacy s os tree)) \<noteq> None \<longrightarrow> tree = NoStat \<or> tree = UnreadableDir"
    unfolding e by (simp add: cannotOpen_def)
  have f1: "entriesFiles path ((name, NoStat) # rest) = entriesFiles path rest" by simp
  have f2: "entriesFiles path ((name, UnreadableDir) # rest) = entriesFiles path rest" by simp
  have f3: "entriesFiles path ((name, Directory sub) # rest) =
     entriesFiles (Join path name) sub @ entriesFiles path rest" by simp
  have nd': "\<forall>item\<in>set (indexes (fst (makeIndex legacy s os tree))). \<not> fiIsDir (Info item)"
    unfolding i by (rule nd)
  show ?thesis
    by (intro conjI) (rule i nd' l e only f1 f2 f3)+
qed

theorem makeIndex_tolerant_witness:
  "map Path (indexes (fst (makeIndex False exampleServer walkOS patchyTree))) =
     [''a.txt'', ''sub/b.txt'', ''z.txt''] \<and>
   map (\<lambda>item. fiIsDir (Info item)) (indexes (fst (makeIndex False exampleServer walkOS patchyTree))) =
     [False, False, False] \<and>
   snd (makeIndex False exampleServer walkOS patchyTree) = (None, [''bad'', ''gone'']) \<and>
   snd (makeIndex True exampleServer walkOS patchyTree) = (None, [''bad'', ''gone'']) \<and>
   fst (snd (makeIndex True exampleServer walkOS UnreadableDir)) = Some SkipDir \<and>
   fst (snd (makeIndex True exampleServer walkOS UnreadableDir)) \<noteq> None \<and>
   fst (snd (makeIndex False exampleServer walkOS UnreadableDir)) = None \<and>
   indexes (fst (makeIndex True exampleServer walkOS NoStat)) = []"
proof -
  note t = makeIndex_tolerant [of _ exampleServer walkOS]
  have f: "treeFiles (Root exampleServer) (Base (Root exampleServer)) patchyTree =
     [(''a.txt'', \<lparr>fiName = ''a.txt'', fiSize = 3, fiIsDir = False, fiModTime = 0\<rparr>),
      (''sub/b.txt'', \<lparr>fiName = ''b.txt'', fiSize = 5, fiIsDir = False, fiModTime = 0\<rparr>),
      (''z.txt'', \<lparr>fiName = ''z.txt'', fiSize = 8, fiIsDir = False, fiModTime = 0\<rparr>)]"
    by code_simp
  have r: "Rel walkOS (Root exampleServer) p = Some p" for p by (simp add: walkOS_def)
  have i: "indexes (fst (makeIndex False exampleServer walkOS patchyTree)) =
     map (indexItem exampleServer walkOS) (treeFiles (Root exampleServer) (Base (Root exampleServer)) patchyTree)"
    using t [of False patchyTree] by blast
  have p1: "map Path (indexes (fst (makeIndex False exampleServer walkOS patchyTree))) =
     [''a.txt'', ''sub/b.txt'', ''z.txt'']"
    unfolding i f by (simp add: indexItem_def r)
  have p2: "map (\<lambda>item. fiIsDir (Info item)) (indexes (fst (makeIndex False exampleServer walkOS patchyTree))) =
     [False, False, False]"
    unfolding i f by (simp add: indexItem_def)
  have w1: "snd (makeIndex False exampleServer walkOS patchyTree) = (None, [''bad'', ''gone''])"
    by code_simp
  have w2: "snd (makeIndex True exampleServer walkOS patchyTree) = (None, [''bad'', ''gone''])"
    by code_simp
  have c: "cannotOpen UnreadableDir" by (simp add: cannotOpen_def)
  have e1: "fst (snd (makeIndex True exampleServer walkOS UnreadableDir)) = Some SkipDir"
    using t [of True UnreadableDir] c by simp
  have e2: "fst (snd (makeIndex False exampleServer walkOS UnreadableDir)) = None"
    using t [of False UnreadableDir] by simp
  have e3: "indexes (fst (makeIndex True exampleServer walkOS NoStat)) = []"
    using t [of True NoStat] by simp
  show ?thesis using p1 p2 w1 w2 e1 e2 e3 by simp
qed

section \<open>Properties of policy resolution\<close>

lemma readAccessConf_unfold:
  "readAccessConf s os p = applySidecar os (cfgFileOf s os (Clean p)) (parentState s os p)"
  by (simp add: parentState_def readAccessConf.simps [of s os p])

lemma applySidecar_NotExist:
  "ReadFile os f = NotExist \<Longrightarrow> applySidecar os f st = st"
  by (simp add: applySidecar_def split: prod.splits)

lemma applySidecar_ReadErr:
  "ReadFile os f = ReadErr \<Longrightarrow> applySidecar os f st = (overlay emptyDoc (fst st), snd st @ [ErrRead f])"
  by (simp add: applySidecar_def split: prod.splits)

lemma applySidecar_SyntaxError:
  "ReadFile os f = Data SyntaxError \<Longrightarrow> applySidecar os f st = (fst st, snd st @ [ErrFormat f])"
  by (simp add: applySidecar_def split: prod.splits)

lemma applySidecar_Document:
  "ReadFile os f = Data (Document d bad) \<Longrightarrow>
   applySidecar os f st = (overlay d (fst st), snd st @ (if bad then [ErrFormat f] else []))"
  by (simp add: applySidecar_def split: prod.splits)

lemma overlay_emptyDoc: "overlay emptyDoc ac = ac"
  by (simp add: overlay_def emptyDoc_def)

text \<open>
  C1 (sidecar overlay). Whatever the request path, the resolved policy is the parent
  level's policy (the default policy at the root, seeded with the server's upload flag;
  the resolved policy of the parent directory elsewhere) with this level's sidecar laid
  over it: without a sidecar the parent's policy is returned, and with a sidecar that
  decodes, every field the sidecar has replaces the parent's and every field it lacks is
  inherited. With \<^verbatim>\<open>upload: false\<close> at the root and \<^verbatim>\<open>upload: true\<close> in \<^verbatim>\<open>a\<close>, uploads
  are allowed at \<^verbatim>\<open>/a/b\<close> and refused at \<^verbatim>\<open>/x\<close>.
\<close>

theorem readAccessConf_overlay:
  "(isRootPath (Clean p) \<longrightarrow>
      fst (parentState s os p) = \<lparr>Upload = srvUpload s, Delete = False, Users = [], AccessTables = []\<rparr>) \<and>
   (\<not> isRootPath (Clean p) \<longrightarrow>
      fst (parentState s os p) = fst (readAccessConf s os (Dir (Clean p)))) \<and>
   (ReadFile os (cfgFileOf s os (Clean p)) = NotExist \<longrightarrow>
      fst (readAccessConf s os p) = fst (parentState s os p)) \<and>
   (ReadFile os (cfgFileOf s os (Clean p)) = Data (Document d False) \<longrightarrow>
      Upload (fst (readAccessConf s os p)) =
        (case docUpload d of Some b \<Rightarrow> b | None \<Rightarrow> Upload (fst (parentState s os p))) \<and>
      Delete (fst (readAccessConf s os p)) =
        (case docDelete d of Some b \<Rightarrow> b | None \<Rightarrow> Delete (fst (parentState s os p))) \<and>
      Users (fst (readAccessConf s os p)) =
        (case docUsers d of Some us \<Rightarrow> us | None \<Rightarrow> Users (fst (parentState s os p))) \<and>
      AccessTables (fst (readAccessConf s os p)) =
        (case docAccessTables d of Some ts \<Rightarrow> ts | None \<Rightarrow> AccessTables (fst (parentState s os p)))) \<and>
   Upload (fst (readAccessConf exampleServer exampleOS ''/a/b'')) \<and>
   \<not> Upload (fst (readAccessConf exampleServer exampleOS ''/x''))"
proof -
  have root: "isRootPath (Clean p) \<longrightarrow>
      fst (parentState s os p) = \<lparr>Upload = srvUpload s, Delete = False, Users = [], AccessTables = []\<rparr>"
    by (simp add: parentState_def defaultAccessConf_def)
  have inner: "\<not> isRootPath (Clean p) \<longrightarrow>
      fst (parentState s os p) = fst (readAccessConf s os (Dir (Clean p)))"
    by (simp add: parentState_def)
  have none: "ReadFile os (cfgFileOf s os (Clean p)) = NotExist \<longrightarrow>
      fst (readAccessConf s os p) = fst (parentState s os p)"
    by (simp add: readAccessConf_unfold [of s os p] applySidecar_NotExist)
  have doc: "fst (readAccessConf s os p) = overlay d (fst (parentState s os p))"
    if "ReadFile os (cfgFileOf s os (Clean p)) = Data (Document d False)"
    by (simp add: readAccessConf_unfold [of s os p] applySidecar_Document [OF that])
  have ex1: "Upload (fst (readAccessConf exampleServer exampleOS ''/a/b''))" by code_simp
  have ex2: "\<not> Upload (fst (readAccessConf exampleServer exampleOS ''/x''))" by code_simp
  show ?thesis
    using root inner none ex1 ex2 by (auto simp: doc overlay_def)
qed

theorem readAccessConf_overlay_witness:
  "\<not> isRootPath (Clean ''/a'') \<and>
   ReadFile exampleOS (cfgFileOf exampleServer exampleOS (Clean ''/a'')) = Data (Document (uploadDoc True) False) \<and>
   docUpload (uploadDoc True) = Some True \<and>
   \<not> Upload (fst (readAccessConf exampleServer exampleOS (Dir (Clean ''/a'')))) \<and>
   Upload (fst (readAccessConf exampleServer exampleOS ''/a'')) \<and>
   isRootPath (Clean ''/'') \<and>
   ReadFile exampleOS (cfgFileOf exampleServer exampleOS (Clean ''/a/b'')) = Data (Document (uploadDoc True) False) \<and>
   ReadFile exampleOS (cfgFileOf exampleServer exampleOS (Clean ''/x'')) = NotExist \<and>
   fst (readAccessConf exampleServer exampleOS ''/x'') = fst (parentState exampleServer exampleOS ''/x'')"
proof -
  have r: "\<not> isRootPath (Clean ''/a'')" by code_simp
  have f: "ReadFile exampleOS (cfgFileOf exampleServer exampleOS (Clean ''/a'')) = Data (Document (uploadDoc True) False)"
    by code_simp
  have u: "docUpload (uploadDoc True) = Some True" by code_simp
  have p: "\<not> Upload (fst (readAccessConf exampleServer exampleOS (Dir (Clean ''/a''))))" by code_simp
  have x: "ReadFile exampleOS (cfgFileOf exampleServer exampleOS (Clean ''/x'')) = NotExist" by code_simp
  have b: "ReadFile exampleOS (cfgFileOf exampleServer exampleOS (Clean ''/a/b'')) = Data (Document (uploadDoc True) False)"
    by code_simp
  have t: "isRootPath (Clean ''/'')" by code_simp
  from readAccessConf_overlay [of "''/a''" exampleServer exampleOS "uploadDoc True"] r f u
  have "Upload (fst (readAccessConf exampleServer exampleOS ''/a''))" by simp
  moreover from readAccessConf_overlay [of "''/x''" exampleServer exampleOS "uploadDoc True"] x
  have "fst (readAccessConf exampleServer exampleOS ''/x'') = fst (parentState exampleServer exampleOS ''/x'')"
    by simp
  ultimately show ?thesis using r f u p x b t by simp
qed


text \<open>
  C7 (malformed sidecar), as the code has it. A sidecar that fails to decode never
  stops the resolution: the failure is logged and the level's result is whatever the
  decoder left in the policy it was decoding into. When the document is rejected as a
  whole that is the parent-resolved policy; when values of the wrong type are reported,
  the keys that did decode are laid over the parent-resolved policy all the same. Every
  deeper level starts from this level's result.
\<close>

theorem malformed_sidecar_fallback:
  "(ReadFile os (cfgFileOf s os (Clean p)) = Data SyntaxError \<longrightarrow>
      readAccessConf s os p =
        (fst (parentState s os p),
         snd (parentState s os p) @ [ErrFormat (cfgFileOf s os (Clean p))])) \<and>
   (ReadFile os (cfgFileOf s os (Clean p)) = Data (Document d True) \<longrightarrow>
      readAccessConf s os p =
        (overlay d (fst (parentState s os p)),
         snd (parentState s os p) @ [ErrFormat (cfgFileOf s os (Clean p))])) \<and>
   (\<not> isRootPath (Clean q) \<longrightarrow>
      readAccessConf s os q =
        applySidecar os (cfgFileOf s os (Clean q)) (readAccessConf s os (Dir (Clean q))))"
proof (intro conjI impI)
  assume "ReadFile os (cfgFileOf s os (Clean p)) = Data SyntaxError"
  then show "readAccessConf s os p =
        (fst (parentState s os p),
         snd (parentState s os p) @ [ErrFormat (cfgFileOf s os (Clean p))])"
    by (simp add: readAccessConf_unfold [of s os p] applySidecar_SyntaxError)
next
  assume a: "ReadFile os (cfgFileOf s os (Clean p)) = Data (Document d True)"
  show "readAccessConf s os p =
        (overlay d (fst (parentState s os p)),
         snd (parentState s os p) @ [ErrFormat (cfgFileOf s os (Clean p))])"
    by (simp add: readAccessConf_unfold [of s os p] applySidecar_Document [OF a])
next
  assume "\<not> isRootPath (Clean q)"
  then show "readAccessConf s os q =
        applySidecar os (cfgFileOf s os (Clean q)) (readAccessConf s os (Dir (Clean q)))"
    by (simp add: readAccessConf_unfold [of s os q] parentState_def)
qed

theorem malformed_sidecar_fallback_witness:
  "ReadFile syntaxErrorOS (cfgFileOf exampleServer syntaxErrorOS (Clean ''/a'')) = Data SyntaxError \<and>
   readAccessConf exampleServer syntaxErrorOS ''/a'' =
     (\<lparr>Upload = False, Delete = False, Users = [], AccessTables = []\<rparr>, [ErrFormat ''a/.ghs.yml'']) \<and>
   fst (parentState exampleServer syntaxErrorOS ''/a'') =
     \<lparr>Upload = False, Delete = False, Users = [], AccessTables = []\<rparr> \<and>
   ReadFile typeErrorOS (cfgFileOf exampleServer typeErrorOS (Clean ''/'')) =
     Data (Document (uploadDoc False) True) \<and>
   readAccessConf exampleServer typeErrorOS ''/'' =
     (\<lparr>Upload = False, Delete = False, Users = [], AccessTables = []\<rparr>, [ErrFormat ''.ghs.yml'']) \<and>
   fst (parentState exampleServer typeErrorOS ''/'') =
     \<lparr>Upload = True, Delete = False, Users = [], AccessTables = []\<rparr> \<and>
   \<not> isRootPath (Clean ''/a/c'') \<and>
   readAccessConf exampleServer syntaxErrorOS ''/a/c'' =
     (\<lparr>Upload = False, Delete = False, Users = [], AccessTables = []\<rparr>, [ErrFormat ''a/.ghs.yml''])"
proof -
  have h1: "ReadFile syntaxErrorOS (cfgFileOf exampleServer syntaxErrorOS (Clean ''/a'')) = Data SyntaxError"
    by code_simp
  have h2: "ReadFile typeErrorOS (cfgFileOf exampleServer typeErrorOS (Clean ''/'')) =
     Data (Document (uploadDoc False) True)"
    by code_simp
  have h3: "\<not> isRootPath (Clean ''/a/c'')" by code_simp
  have p1: "parentState exampleServer syntaxErrorOS ''/a'' =
     (\<lparr>Upload = False, Delete = False, Users = [], AccessTables = []\<rparr>, [])"
    by code_simp
  have p2: "parentState exampleServer typeErrorOS ''/'' =
     (\<lparr>Upload = True, Delete = False, Users = [], AccessTables = []\<rparr>, [])"
    by code_simp
  have c1: "cfgFileOf exampleServer syntaxErrorOS (Clean ''/a'') = ''a/.ghs.yml''" by code_simp
  have c2: "cfgFileOf exampleServer typeErrorOS (Clean ''/'') = ''.ghs.yml''" by code_simp
  have o: "overlay (uploadDoc False) \<lparr>Upload = True, Delete = False, Users = [], AccessTables = []\<rparr> =
     \<lparr>Upload = False, Delete = False, Users = [], AccessTables = []\<rparr>"
    by code_simp
  have d: "Dir (Clean ''/a/c'') = ''/a''" by code_simp
  have n: "ReadFile syntaxErrorOS (cfgFileOf exampleServer syntaxErrorOS (Clean ''/a/c'')) = NotExist"
    by code_simp
  note t1 = malformed_sidecar_fallback [of syntaxErrorOS exampleServer "''/a''" "uploadDoc False" "''/a/c''"]
  note t2 = malformed_sidecar_fallback [of typeErrorOS exampleServer "''/''" "uploadDoc False" "''/a/c''"]
  have r1: "readAccessConf exampleServer syntaxErrorOS ''/a'' =
     (\<lparr>Upload = False, Delete = False, Users = [], AccessTables = []\<rparr>, [ErrFormat ''a/.ghs.yml''])"
    using t1 h1 by (simp add: p1 c1)
  have r2: "readAccessConf exampleServer typeErrorOS ''/'' =
     (\<lparr>Upload = False, Delete = False, Users = [], AccessTables = []\<rparr>, [ErrFormat ''.ghs.yml''])"
    using t2 h2 by (simp add: p2 c2 o)
  have r3: "readAccessConf exampleServer syntaxErrorOS ''/a/c'' =
     (\<lparr>Upload = False, Delete = False, Users = [], AccessTables = []\<rparr>, [ErrFormat ''a/.ghs.yml''])"
    using t1 h3 by (simp add: d r1 applySidecar_NotExist [OF n])
  show ?thesis using h1 h2 h3 r1 r2 r3 by (simp add: p1 p2)
qed

text \<open>
  The claim that the level's policy always equals the parent-resolved policy fails for
  a sidecar with a type error: \<^verbatim>\<open>upload: false\<close> next to a value of the wrong type, at
  the root of a server whose global upload flag is on, is reported as an error and
  still switches uploads off.
\<close>

theorem malformed_sidecar_counterexample:
  "ReadFile typeErrorOS (cfgFileOf exampleServer typeErrorOS (Clean ''/'')) =
     Data (Document (uploadDoc False) True) \<and>
   snd (Unmarshal (Document (uploadDoc False) True) (fst (parentState exampleServer typeErrorOS ''/''))) \<and>
   fst (readAccessConf exampleServer typeErrorOS ''/'') \<noteq> fst (parentState exampleServer typeErrorOS ''/'')"
  by code_simp


lemma cfgFiles_unfold:
  "cfgFiles s os p =
     (if isRootPath (Clean p) then [] else cfgFiles s os (Dir (Clean p))) @ [cfgFileOf s os (Clean p)]"
  by (rule cfgFiles.simps)

lemma no_sidecar_default:
  "\<forall>f\<in>set (cfgFiles s os p). ReadFile os f = NotExist \<Longrightarrow>
   readAccessConf s os p = (defaultAccessConf s, [])"
proof (induction s os p rule: readAccessConf.induct)
  case (1 s os requestPath)
  have here: "ReadFile os (cfgFileOf s os (Clean requestPath)) = NotExist"
    using "1.prems" by (subst (asm) cfgFiles_unfold) simp
  show ?case
  proof (cases "isRootPath (Clean requestPath)")
    case True
    then show ?thesis
      by (simp add: readAccessConf_unfold [of s os requestPath] parentState_def
          applySidecar_NotExist [OF here])
  next
    case False
    have "\<forall>f\<in>set (cfgFiles s os (Dir (Clean requestPath))). ReadFile os f = NotExist"
      using "1.prems" False by (subst (asm) cfgFiles_unfold) simp
    from "1.IH" [OF False this] False show ?thesis
      by (simp add: readAccessConf_unfold [of s os requestPath] parentState_def
          applySidecar_NotExist [OF here])
  qed
qed

lemma policy_origin:
  "(Delete (fst (readAccessConf s os p)) \<longrightarrow> (\<exists>f\<in>set (cfgFiles s os p). (\<exists>d bad. ReadFile os f = Data (Document d bad) \<and> docDelete d = Some True))) \<and>
   (\<forall>u\<in>set (Users (fst (readAccessConf s os p))). \<exists>f\<in>set (cfgFiles s os p). (\<exists>d bad us. ReadFile os f = Data (Document d bad) \<and> docUsers d = Some us \<and> u \<in> set us))"
proof (induction s os p rule: readAccessConf.induct)
  case (1 s os requestPath)
  let ?cfg = "cfgFileOf s os (Clean requestPath)"
  let ?par = "parentState s os requestPath"
  let ?pfs = "if isRootPath (Clean requestPath) then [] else cfgFiles s os (Dir (Clean requestPath))"
  have fs: "cfgFiles s os requestPath = ?pfs @ [?cfg]" by (rule cfgFiles_unfold)
  have par: "(Delete (fst ?par) \<longrightarrow> (\<exists>f\<in>set ?pfs. (\<exists>d bad. ReadFile os f = Data (Document d bad) \<and> docDelete d = Some True))) \<and>
             (\<forall>u\<in>set (Users (fst ?par)). \<exists>f\<in>set ?pfs. (\<exists>d bad us. ReadFile os f = Data (Document d bad) \<and> docUsers d = Some us \<and> u \<in> set us))"
  proof (cases "isRootPath (Clean requestPath)")
    case True
    then show ?thesis by (simp add: parentState_def defaultAccessConf_def)
  next
    case False
    from "1.IH" [OF False] False show ?thesis by (simp add: parentState_def)
  qed
  show ?case
  proof (cases "ReadFile os ?cfg")
    case NotExist
    then show ?thesis using par
      by (simp add: readAccessConf_unfold [of s os requestPath] applySidecar_NotExist fs)
  next
    case ReadErr
    then show ?thesis using par
      by (simp add: readAccessConf_unfold [of s os requestPath] applySidecar_ReadErr overlay_emptyDoc fs)
  next
    case (Data y)
    show ?thesis
    proof (cases y)
      case SyntaxError
      then show ?thesis using par Data
        by (simp add: readAccessConf_unfold [of s os requestPath] applySidecar_SyntaxError fs)
    next
      case (Document d bad)
      have rf: "ReadFile os ?cfg = Data (Document d bad)" using Data Document by simp
      have r: "fst (readAccessConf s os requestPath) = overlay d (fst ?par)"
        by (simp add: readAccessConf_unfold [of s os requestPath] applySidecar_Document [OF rf])
      have d1: "Delete (overlay d (fst ?par)) \<Longrightarrow> (\<exists>d bad. ReadFile os ?cfg = Data (Document d bad) \<and> docDelete d = Some True) \<or> (\<exists>f\<in>set ?pfs. (\<exists>d bad. ReadFile os f = Data (Document d bad) \<and> docDelete d = Some True))"
        using par rf by (cases "docDelete d") (auto simp: overlay_def)
      have d2: "u \<in> set (Users (overlay d (fst ?par))) \<Longrightarrow>
                (\<exists>d bad us. ReadFile os ?cfg = Data (Document d bad) \<and> docUsers d = Some us \<and> u \<in> set us) \<or> (\<exists>f\<in>set ?pfs. (\<exists>d bad us. ReadFile os f = Data (Document d bad) \<and> docUsers d = Some us \<and> u \<in> set us))" for u
        using par rf by (cases "docUsers d") (auto simp: overlay_def)
      show ?thesis unfolding r fs using d1 d2 by auto
    qed
  qed
qed

text \<open>
  C10 (deletion is denied by default). When none of the sidecar files that the
  resolution of a path opens exists, the resolved policy is the default one, whose
  delete flag is off and which lists no user: \<open>canDelete\<close> refuses every caller and the
  DELETE handler answers 403 without asking for any removal. Conversely, whenever
  \<open>canDelete\<close> accepts, one of the sidecars on the way sets \<^verbatim>\<open>delete: true\<close> or lists the
  caller with the delete right.
\<close>

theorem delete_denied_by_default:
  "((\<forall>f\<in>set (cfgFiles s os p). ReadFile os f = NotExist) \<longrightarrow>
      fst (readAccessConf s os p) = \<lparr>Upload = srvUpload s, Delete = False, Users = [], AccessTables = []\<rparr> \<and>
      \<not> canDelete (fst (readAccessConf s os p)) req \<and>
      hDelete s os req p = (httpError 403 ''Delete forbidden'', [])) \<and>
   (canDelete (fst (readAccessConf s os p)) req \<longrightarrow>
      (\<exists>f\<in>set (cfgFiles s os p). \<exists>d bad. ReadFile os f = Data (Document d bad) \<and>
         (docDelete d = Some True \<or>
          (\<exists>us u. docUsers d = Some us \<and> u \<in> set us \<and> req = User (Email u) \<and> userDelete u))))"
proof (intro conjI impI)
  assume a: "\<forall>f\<in>set (cfgFiles s os p). ReadFile os f = NotExist"
  have r: "readAccessConf s os p = (defaultAccessConf s, [])" using a by (rule no_sidecar_default)
  show "fst (readAccessConf s os p) = \<lparr>Upload = srvUpload s, Delete = False, Users = [], AccessTables = []\<rparr>"
    by (simp add: r defaultAccessConf_def)
  show nd: "\<not> canDelete (fst (readAccessConf s os p)) req"
    by (cases req) (simp_all add: r defaultAccessConf_def canDelete_def)
  show "hDelete s os req p = (httpError 403 ''Delete forbidden'', [])"
    using nd by (simp add: hDelete_def)
next
  assume c: "canDelete (fst (readAccessConf s os p)) req"
  let ?ac = "fst (readAccessConf s os p)"
  from c consider (flag) "Delete ?ac"
    | (user) u where "u \<in> set (Users ?ac)" "req = User (Email u)" "userDelete u"
  proof (cases req)
    case SessionErr
    then show ?thesis using c that by (simp add: canDelete_def)
  next
    case NoUser
    then show ?thesis using c that by (simp add: canDelete_def)
  next
    case (User email)
    show ?thesis
    proof (cases "find (\<lambda>rule. Email rule = email) (Users ?ac)")
      case None
      then show ?thesis using c that User by (simp add: canDelete_def)
    next
      case (Some rule)
      then have "rule \<in> set (Users ?ac)" "Email rule = email"
        by (auto simp: find_Some_iff)
      then show ?thesis using c that(2) [of rule] User Some by (simp add: canDelete_def)
    qed
  qed
  then show "\<exists>f\<in>set (cfgFiles s os p). \<exists>d bad. ReadFile os f = Data (Document d bad) \<and>
         (docDelete d = Some True \<or>
          (\<exists>us u. docUsers d = Some us \<and> u \<in> set us \<and> req = User (Email u) \<and> userDelete u))"
  proof cases
    case flag
    then show ?thesis using policy_origin [of s os p] by blast
  next
    case user
    then obtain f d bad us where "f \<in> set (cfgFiles s os p)"
      "ReadFile os f = Data (Document d bad)" "docUsers d = Some us" "u \<in> set us"
      using policy_origin [of s os p] by blast
    then show ?thesis using user by blast
  qed
qed

theorem delete_denied_by_default_witness:
  "cfgFiles exampleServer bareOS ''a/b'' = [''.ghs.yml'', ''a/.ghs.yml'', ''a/.ghs.yml''] \<and>
   ReadFile bareOS ''.ghs.yml'' = NotExist \<and> ReadFile bareOS ''a/.ghs.yml'' = NotExist \<and>
   \<not> canDelete (fst (readAccessConf exampleServer bareOS ''a/b'')) (User ''ann@example.org'') \<and>
   hDelete exampleServer bareOS (User ''ann@example.org'') ''a/b'' = (httpError 403 ''Delete forbidden'', []) \<and>
   canDelete (fst (readAccessConf exampleServer grantOS ''a/b'')) NoUser \<and>
   hDelete exampleServer grantOS NoUser ''a/b'' = (Response 200 ''Success'', [''a/b'']) \<and>
   ''.ghs.yml'' \<in> set (cfgFiles exampleServer grantOS ''a/b'') \<and>
   ReadFile grantOS ''.ghs.yml'' = Data (Document (emptyDoc\<lparr>docDelete := Some True\<rparr>) False)"
proof -
  have fs: "cfgFiles exampleServer bareOS ''a/b'' = [''.ghs.yml'', ''a/.ghs.yml'', ''a/.ghs.yml'']"
    by code_simp
  have n1: "ReadFile bareOS ''.ghs.yml'' = NotExist" by code_simp
  have n2: "ReadFile bareOS ''a/.ghs.yml'' = NotExist" by code_simp
  have g1: "canDelete (fst (readAccessConf exampleServer grantOS ''a/b'')) NoUser" by code_simp
  have g2: "hDelete exampleServer grantOS NoUser ''a/b'' = (Response 200 ''Success'', [''a/b''])"
    by code_simp
  have g3: "cfgFiles exampleServer grantOS ''a/b'' = [''.ghs.yml'', ''a/.ghs.yml'', ''a/.ghs.yml'']"
    by code_simp
  have g4: "ReadFile grantOS ''.ghs.yml'' = Data (Document (emptyDoc\<lparr>docDelete := Some True\<rparr>) False)"
    by code_simp
  have "\<forall>f\<in>set (cfgFiles exampleServer bareOS ''a/b''). ReadFile bareOS f = NotExist"
    using n1 n2 by (simp add: fs)
  with delete_denied_by_default [of exampleServer bareOS "''a/b''" "User ''ann@example.org''"]
  have "\<not> canDelete (fst (readAccessConf exampleServer bareOS ''a/b'')) (User ''ann@example.org'') \<and>
        hDelete exampleServer bareOS (User ''ann@example.org'') ''a/b'' = (httpError 403 ''Delete forbidden'', [])"
    by blast
  then show ?thesis using fs n1 n2 g1 g2 g4 by (simp add: g3)
qed

end
